theory Spec2Isabelle
  imports Complex_Main "HOL-Library.AList" "HOL-Library.Word"
begin

section \<open>Training utilities of \<^verbatim>\<open>utils.py\<close>\<close>

text \<open>
  The Python exceptions that the modelled functions can raise. A function that can raise
  returns \<open>py_error + 'a\<close>, with \<open>Inl\<close> for the exception.
\<close>

datatype py_error =
  AssertionError | IndexError | KeyError | AttributeError | TypeError | ValueError | RuntimeError

text \<open>
  Learning rates and coefficients are Python floats that the code only stores, returns
  and multiplies; they are modelled as real numbers, the product standing for the float
  product. Epochs are Python integers.
\<close>

subsection \<open>Floating-point values\<close>

text \<open>
  The elements of a float tensor, and a Python float used as a bound, are IEEE values:
  not-a-number, the two infinities, or a finite number, given by its real value (the two
  zeros are not told apart, as \<^verbatim>\<open>==\<close> does not). The comparisons are IEEE's: every
  comparison with NaN is false.
\<close>

datatype fval = NaN | NInf | Fin real | PInf

fun flt :: "fval \<Rightarrow> fval \<Rightarrow> bool" where
  "flt NaN _ = False"
| "flt _ NaN = False"
| "flt _ NInf = False"
| "flt NInf _ = True"
| "flt PInf _ = False"
| "flt (Fin a) PInf = True"
| "flt (Fin a) (Fin b) = (a < b)"









subsection \<open>\<^verbatim>\<open>StepLR\<close>: the piecewise-constant schedule\<close>

record StepLR =
  lr :: "real list"
  lr_epochs :: "int list"

text \<open>
  \<^verbatim>\<open>StepLR.__init__\<close>: \<^verbatim>\<open>assert len(lr) - len(lr_epochs) == 1\<close>, then the two
  fields are stored. The subtraction is on Python integers.
\<close>

definition StepLR_init :: "real list \<Rightarrow> int list \<Rightarrow> py_error + StepLR" where
  "StepLR_init rates thresholds =
     (if int (length rates) - int (length thresholds) = 1
      then Inr \<lparr>lr = rates, lr_epochs = thresholds\<rparr>
      else Inl AssertionError)"

text \<open>
  The loop of \<^verbatim>\<open>StepLR.__call__\<close>: \<open>idx\<close> starts at 0 and is advanced once per
  threshold until the first threshold with \<^verbatim>\<open>epoch < lr_epoch\<close>, where the loop breaks.
\<close>

fun StepLR_scan :: "int \<Rightarrow> int list \<Rightarrow> nat \<Rightarrow> nat" where
  "StepLR_scan epoch [] idx = idx"
| "StepLR_scan epoch (lr_epoch # rest) idx =
     (if epoch < lr_epoch then idx else StepLR_scan epoch rest (idx + 1))"

text \<open>
  \<^verbatim>\<open>StepLR.__call__\<close>: \<^verbatim>\<open>return self.lr[idx]\<close>; the index is never negative, and
  Python raises IndexError when it is not below the length of the list.
\<close>

definition StepLR_call :: "StepLR \<Rightarrow> int \<Rightarrow> py_error + real" where
  "StepLR_call s epoch =
     (let idx = StepLR_scan epoch (lr_epochs s) 0
      in if idx < length (lr s) then Inr (lr s ! idx) else Inl IndexError)"

text \<open>\<^verbatim>\<open>StepLR.state_dict\<close> returns \<^verbatim>\<open>{'lr': self.lr, 'lr_epochs': self.lr_epochs}\<close>.\<close>

record lr_snapshot =
  snap_lr :: "real list"
  snap_lr_epochs :: "int list"

definition StepLR_state_dict :: "StepLR \<Rightarrow> lr_snapshot" where
  "StepLR_state_dict s = \<lparr>snap_lr = lr s, snap_lr_epochs = lr_epochs s\<rparr>"

subsection \<open>Parameters, parameter groups and the wrapped torch optimizer\<close>

text \<open>
  A parameter carries its values and its gradient, \<open>None\<close> when \<^verbatim>\<open>p.grad\<close> is absent;
  \<open>p_cast\<close> is the dtype of the gradient tensor, given as the conversion of a Python
  float into that dtype, which torch applies to a scalar it compares with or stores into
  the tensor.
  A parameter group is the dictionary \<^verbatim>\<open>{"params": ..., "lr": ...}\<close>. The torch
  optimizer (\<^verbatim>\<open>optim.Adam\<close>) is external: its parameter groups are visible to the
  wrapper, its internal state (moments, step counts) is opaque, of type \<open>'st\<close>.
  Its constructor, its \<^verbatim>\<open>step\<close>, its \<^verbatim>\<open>state_dict\<close> and its
  \<^verbatim>\<open>load_state_dict\<close> are parameters of the functions that call them.
\<close>

record param =
  p_data :: "fval list"
  p_grad :: "fval list option"
  p_cast :: "fval \<Rightarrow> fval"

record param_group =
  pg_params :: "param list"
  pg_lr :: real

record 'st torch_opt =
  param_groups :: "param_group list"
  internal :: 'st

record 'st Optimizer =
  coef :: "real list"
  opt :: "'st torch_opt"
  lr_func :: StepLR
  clip_grads :: bool
  clip_low :: "fval option"
  clip_high :: "fval option"

text \<open>
  The \<^verbatim>\<open>params\<close> argument of \<^verbatim>\<open>Optimizer.__init__\<close>: a list or tuple of groups, or
  anything else, which the constructor wraps into a one-element list.
\<close>

datatype 'p params_arg = ParamSeq "'p list" | ParamOther 'p

text \<open>
  \<^verbatim>\<open>Optimizer.__init__(self, params, coef=None)\<close>. The argument \<open>coef_arg\<close> is of any
  type: the constructor overwrites the local \<^verbatim>\<open>coef\<close> before reading it. The
  configuration is the literal dictionary of the source; it has no key
  \<^verbatim>\<open>"momentum"\<close> (the \<^verbatim>\<open>sgd\<close> branch would raise KeyError) and no key
  \<^verbatim>\<open>"clip_grads"\<close>, so \<^verbatim>\<open>clip_low\<close> and \<^verbatim>\<open>clip_high\<close> are left unset.
\<close>

definition Optimizer_init ::
  "(param_group list \<Rightarrow> py_error + 'st torch_opt) \<Rightarrow> (param list) params_arg \<Rightarrow> 'c
     \<Rightarrow> py_error + 'st Optimizer" where
  "Optimizer_init Adam params_in coef_arg =
     (let params = (case params_in of ParamSeq ps \<Rightarrow> ps | ParamOther p \<Rightarrow> [p]);
          coef_new = replicate (length params) 1;
          config_opt = ''adam'';
          config_lr = [1 / 1000, 1 / 10000];
          config_lr_epochs = [32]
      in case StepLR_init config_lr config_lr_epochs of
           Inl e \<Rightarrow> Inl e
         | Inr config_lr_func \<Rightarrow>
            (let groups = map (\<lambda>p. \<lparr>pg_params = p, pg_lr = 0\<rparr>) params
             in if \<not> (config_opt = ''sgd'' \<or> config_opt = ''adam'') then Inl AssertionError
                else case (if config_opt = ''sgd'' then Inl KeyError else Adam groups) of
                       Inl e \<Rightarrow> Inl e
                     | Inr torch \<Rightarrow>
                         Inr \<lparr>coef = coef_new, opt = torch, lr_func = config_lr_func,
                              clip_grads = False, clip_low = None, clip_high = None\<rparr>))"

text \<open>
  \<^verbatim>\<open>Optimizer.clip\<close>, on one gradient tensor of dtype \<open>cast\<close>:
  \<^verbatim>\<open>mask = p.grad.data < low; p.grad.data[mask] = low\<close>, then the same with
  \<^verbatim>\<open>> high\<close> on the result. The Python float is converted to the tensor's dtype for
  the comparison and for the store.
\<close>

definition clip_tensor :: "(fval \<Rightarrow> fval) \<Rightarrow> fval \<Rightarrow> fval \<Rightarrow> fval list \<Rightarrow> fval list" where
  "clip_tensor cast low high g =
     (let g1 = map (\<lambda>x. if flt x (cast low) then cast low else x) g
      in map (\<lambda>x. if flt (cast high) x then cast high else x) g1)"

definition clip_param :: "fval \<Rightarrow> fval \<Rightarrow> param \<Rightarrow> param" where
  "clip_param low high p =
     (case p_grad p of
        None \<Rightarrow> p
      | Some g \<Rightarrow> p\<lparr>p_grad := Some (clip_tensor (p_cast p) low high g)\<rparr>)"

text \<open>
  The source collects the parameters of all groups whose gradient is not \<open>None\<close> and
  clips each in place; the groups then hold the clipped gradients. Reading an unset
  \<^verbatim>\<open>self.clip_low\<close> or \<^verbatim>\<open>self.clip_high\<close> raises AttributeError.
\<close>

definition clip :: "'st Optimizer \<Rightarrow> py_error + 'st Optimizer" where
  "clip s =
     (case clip_low s of None \<Rightarrow> Inl AttributeError
      | Some low \<Rightarrow>
         (case clip_high s of None \<Rightarrow> Inl AttributeError
          | Some high \<Rightarrow>
              Inr (s\<lparr>opt := (opt s)\<lparr>param_groups :=
                     map (\<lambda>g. g\<lparr>pg_params := map (clip_param low high) (pg_params g)\<rparr>)
                         (param_groups (opt s))\<rparr>\<rparr>)))"

text \<open>
  The loop of \<^verbatim>\<open>Optimizer.step\<close> over \<^verbatim>\<open>enumerate(self.opt.param_groups)\<close>:
  \<^verbatim>\<open>param_group["lr"] = lr * self.coef[i]\<close>, with IndexError when \<open>coef\<close> is too short.
\<close>

fun set_lrs :: "real \<Rightarrow> real list \<Rightarrow> nat \<Rightarrow> param_group list \<Rightarrow> py_error + param_group list" where
  "set_lrs rate cs i [] = Inr []"
| "set_lrs rate cs i (g # gs) =
     (if i < length cs
      then (case set_lrs rate cs (i + 1) gs of
              Inl e \<Rightarrow> Inl e
            | Inr gs' \<Rightarrow> Inr (g\<lparr>pg_lr := rate * cs ! i\<rparr> # gs'))
      else Inl IndexError)"

text \<open>
  \<^verbatim>\<open>Optimizer.step(epoch)\<close>, with the torch optimizer's \<^verbatim>\<open>step\<close> as \<open>torch_step\<close>.
  It returns the new state of the wrapper and the base rate.
\<close>

definition step ::
  "('st torch_opt \<Rightarrow> 'st torch_opt) \<Rightarrow> 'st Optimizer \<Rightarrow> int \<Rightarrow> py_error + ('st Optimizer \<times> real)" where
  "step torch_step s epoch =
     (case (if clip_grads s then clip s else Inr s) of
        Inl e \<Rightarrow> Inl e
      | Inr s1 \<Rightarrow>
         (case StepLR_call (lr_func s1) epoch of
            Inl e \<Rightarrow> Inl e
          | Inr rate \<Rightarrow>
             (case set_lrs rate (coef s1) 0 (param_groups (opt s1)) of
                Inl e \<Rightarrow> Inl e
              | Inr gs \<Rightarrow>
                  Inr (s1\<lparr>opt := torch_step ((opt s1)\<lparr>param_groups := gs\<rparr>)\<rparr>, rate))))"

text \<open>
  \<^verbatim>\<open>Optimizer.state_dict\<close> builds a dictionary with the three keys \<^verbatim>\<open>lr_func\<close>,
  \<^verbatim>\<open>coef\<close> and \<^verbatim>\<open>opt_state\<close>; the last is whatever the torch optimizer exports.
\<close>

record 'os opt_snapshot =
  sd_lr_func :: lr_snapshot
  sd_coef :: "real list"
  sd_opt_state :: 'os

definition Optimizer_state_dict :: "('st torch_opt \<Rightarrow> 'os) \<Rightarrow> 'st Optimizer \<Rightarrow> 'os opt_snapshot" where
  "Optimizer_state_dict torch_state_dict s =
     \<lparr>sd_lr_func = StepLR_state_dict (lr_func s), sd_coef = coef s,
      sd_opt_state = torch_state_dict (opt s)\<rparr>"

text \<open>
  \<^verbatim>\<open>Optimizer.load_state_dict(opt_state)\<close> is the single call
  \<^verbatim>\<open>self.opt.load_state_dict(opt_state)\<close>. The torch restore may raise after it has
  changed the torch optimizer, so it returns the torch optimizer after the call together
  with the exception, if any; so does the wrapper's method.
\<close>

definition Optimizer_load_state_dict ::
  "('st torch_opt \<Rightarrow> 'os \<Rightarrow> 'st torch_opt \<times> py_error option) \<Rightarrow> 'st Optimizer \<Rightarrow> 'os
     \<Rightarrow> 'st Optimizer \<times> py_error option" where
  "Optimizer_load_state_dict torch_load s opt_state =
     (case torch_load (opt s) opt_state of (torch', raised) \<Rightarrow> (s\<lparr>opt := torch'\<rparr>, raised))"

subsection \<open>Tensors and Python dictionaries\<close>

text \<open>
  A tensor has a shape (\<^verbatim>\<open>size()\<close>) and elements of one dtype: 16-bit integers, 64-bit
  integers, or floats (standing for every other dtype).
\<close>

datatype elems = I16 "16 word list" | I64 "64 word list" | F32 "fval list"

record tensor =
  t_size :: "nat list"
  t_elems :: elems

text \<open>
  A Python dictionary is an association list with distinct keys, in insertion order:
  \<open>map_of\<close> reads a key, \<open>AList.update\<close> assigns to one (in place for a key that is
  present, at the end for a new one).
\<close>

type_synonym ('k, 'v) dict = "('k \<times> 'v) list"

subsection \<open>\<^verbatim>\<open>index_dict\<close>\<close>

text \<open>
  The two dictionaries the function works on: its argument \<^verbatim>\<open>data\<close> and the result
  \<^verbatim>\<open>returns\<close> under construction. Indexing a value by \<open>idcs\<close> is the parameter
  \<open>getitem\<close>, which may raise.
\<close>

record ('k, 'v, 'r) index_dict_vars =
  data :: "('k, 'v) dict"
  returns :: "('k, 'r) dict"

fun index_dict_loop ::
  "('v \<Rightarrow> 'i \<Rightarrow> py_error + 'r) \<Rightarrow> 'i \<Rightarrow> 'k list \<Rightarrow> ('k, 'v, 'r) index_dict_vars
     \<Rightarrow> py_error + ('k, 'v, 'r) index_dict_vars" where
  "index_dict_loop getitem idcs [] st = Inr st"
| "index_dict_loop getitem idcs (key # keys) st =
     (case map_of (data st) key of
        None \<Rightarrow> Inl KeyError
      | Some v \<Rightarrow>
         (case getitem v idcs of
            Inl e \<Rightarrow> Inl e
          | Inr r \<Rightarrow>
              index_dict_loop getitem idcs keys
                (st\<lparr>returns := AList.update key r (returns st)\<rparr>)))"

text \<open>
  \<^verbatim>\<open>index_dict(data, idcs)\<close>: the loop runs over the keys of \<^verbatim>\<open>data\<close> from an empty
  \<^verbatim>\<open>returns\<close>. The final value of both variables is returned, \<^verbatim>\<open>returns\<close> being the
  function's result and \<^verbatim>\<open>data\<close> the caller's dictionary after the call.
\<close>

definition index_dict ::
  "('v \<Rightarrow> 'i \<Rightarrow> py_error + 'r) \<Rightarrow> ('k, 'v) dict \<Rightarrow> 'i \<Rightarrow> py_error + ('k, 'v, 'r) index_dict_vars" where
  "index_dict getitem d idcs =
     index_dict_loop getitem idcs (map fst d) \<lparr>data = d, returns = []\<rparr>"

subsection \<open>\<^verbatim>\<open>load_pretrain\<close>\<close>

text \<open>
  A value of the checkpoint is a tensor, or an object that is not a tensor and wraps one
  in its \<^verbatim>\<open>.data\<close>; its \<^verbatim>\<open>size()\<close> is that of the tensor.
\<close>

datatype pvalue = PTensor tensor | PWrapped tensor

fun pv_size :: "pvalue \<Rightarrow> nat list" where
  "pv_size (PTensor t) = t_size t"
| "pv_size (PWrapped t) = t_size t"

fun pv_value :: "pvalue \<Rightarrow> tensor" where
  "pv_value (PTensor t) = t"
| "pv_value (PWrapped t) = t"

text \<open>
  The loop over \<^verbatim>\<open>pretrain_dict.keys()\<close>, on the dictionary \<^verbatim>\<open>state_dict\<close> obtained
  from the model.
\<close>

fun load_pretrain_loop ::
  "(string, pvalue) dict \<Rightarrow> string list \<Rightarrow> (string, tensor) dict \<Rightarrow> py_error + (string, tensor) dict" where
  "load_pretrain_loop pretrain_dict [] state_dict = Inr state_dict"
| "load_pretrain_loop pretrain_dict (key # keys) state_dict =
     (case map_of state_dict key of
        None \<Rightarrow> load_pretrain_loop pretrain_dict keys state_dict
      | Some cur \<Rightarrow>
         (case map_of pretrain_dict key of
            None \<Rightarrow> Inl KeyError
          | Some pv \<Rightarrow>
              if pv_size pv = t_size cur
              then load_pretrain_loop pretrain_dict keys (AList.update key (pv_value pv) state_dict)
              else load_pretrain_loop pretrain_dict keys state_dict))"

text \<open>
  The model \<open>net\<close> is represented by its parameter dictionary, which
  \<^verbatim>\<open>net.state_dict()\<close> returns (its values are the parameters' own tensors).
  \<^verbatim>\<open>net.load_state_dict(state_dict)\<close> is torch's, in its default strict mode: it raises
  when \<^verbatim>\<open>state_dict\<close> has a key that the model has not, lacks a key of the model, or
  holds a tensor of another shape than the parameter; otherwise every parameter receives
  \<^verbatim>\<open>param.copy_(value)\<close>. The parameter after that copy is \<open>copy_into param value\<close>,
  a parameter of the model here: the copy keeps the parameter's dtype and converts the
  values into it.
\<close>

fun load_params ::
  "(tensor \<Rightarrow> tensor \<Rightarrow> tensor) \<Rightarrow> (string, tensor) dict \<Rightarrow> (string, tensor) dict
     \<Rightarrow> py_error + (string, tensor) dict" where
  "load_params copy_into state_dict [] = Inr []"
| "load_params copy_into state_dict ((name, cur) # rest) =
     (case map_of state_dict name of
        None \<Rightarrow> Inl RuntimeError
      | Some v \<Rightarrow>
          if t_size v \<noteq> t_size cur then Inl RuntimeError
          else (case load_params copy_into state_dict rest of
                  Inl e \<Rightarrow> Inl e
                | Inr rest' \<Rightarrow> Inr ((name, copy_into cur v) # rest')))"

definition Module_load_state_dict ::
  "(tensor \<Rightarrow> tensor \<Rightarrow> tensor) \<Rightarrow> (string, tensor) dict \<Rightarrow> (string, tensor) dict
     \<Rightarrow> py_error + (string, tensor) dict" where
  "Module_load_state_dict copy_into net state_dict =
     (if \<exists>key \<in> set (map fst state_dict). key \<notin> set (map fst net) then Inl RuntimeError
      else load_params copy_into state_dict net)"

text \<open>
  \<^verbatim>\<open>load_pretrain(net, pretrain_dict)\<close>: the loop on \<^verbatim>\<open>net.state_dict()\<close>, then
  \<^verbatim>\<open>net.load_state_dict(state_dict)\<close>; the result is the model after the call.
\<close>

definition load_pretrain ::
  "(tensor \<Rightarrow> tensor \<Rightarrow> tensor) \<Rightarrow> (string, tensor) dict \<Rightarrow> (string, pvalue) dict
     \<Rightarrow> py_error + (string, tensor) dict" where
  "load_pretrain copy_into net pretrain_dict =
     (case load_pretrain_loop pretrain_dict (map fst pretrain_dict) net of
        Inl e \<Rightarrow> Inl e
      | Inr state_dict \<Rightarrow> Module_load_state_dict copy_into net state_dict)"

subsection \<open>\<^verbatim>\<open>to_long\<close>\<close>

text \<open>
  \<^verbatim>\<open>to_long\<close> assigns into the dictionaries it is given, so its argument is modelled
  with object identity: a heap is the list of the objects allocated so far, an address is
  an index into it, and a new object is appended. A dictionary holds the addresses of its
  values under its keys, a list or tuple the addresses of its elements; a leaf is a tensor
  or any other Python value (a string stands for it).
\<close>

type_synonym addr = nat

datatype leaf = Tensor tensor | Other string

datatype pyobj =
    ODict "(string, addr) dict"
  | OList "addr list"
  | OTuple "addr list"
  | OLeaf leaf

type_synonym heap = "pyobj list"

definition lookup :: "heap \<Rightarrow> addr \<Rightarrow> pyobj option" where
  "lookup h a = (if a < length h then Some (h ! a) else None)"

definition alloc :: "heap \<Rightarrow> pyobj \<Rightarrow> heap \<times> addr" where
  "alloc h x = (h @ [x], length h)"

text \<open>
  \<^verbatim>\<open>to_long(data)\<close> on the heap \<open>h\<close>, where \<open>obj\<close> is the address that \<^verbatim>\<open>data\<close>
  refers to: it returns the heap after the call and the address of the returned object.
  The three \<^verbatim>\<open>if\<close> statements of the source test disjoint types, so one branch runs.
  \<^item> Dictionary: for every key, \<^verbatim>\<open>data[key] = to_long(data[key])\<close> reads the slot from
    the dictionary as it is then, and assigns the result to the same slot of the same
    object; the dictionary itself is returned.
  \<^item> List or tuple: \<^verbatim>\<open>[to_long(x) for x in data]\<close> builds a new list, also from a tuple.
  \<^item> Tensor of dtype \<^verbatim>\<open>int16\<close>: \<^verbatim>\<open>data.long()\<close> is a new tensor of the same shape
    whose elements are the sign-extended 64-bit values. Any other leaf is returned as is.

  The recursion of the source is not bounded (a dictionary reachable from itself recurses
  until Python's RecursionError), so the model takes fuel, one unit per nesting level:
  \<open>None\<close> is fuel exhausted, or a read of an address or key that does not exist, which
  Python cannot produce.
\<close>

fun to_long :: "nat \<Rightarrow> heap \<Rightarrow> addr \<Rightarrow> (heap \<times> addr) option"
and to_long_items :: "nat \<Rightarrow> heap \<Rightarrow> addr \<Rightarrow> string list \<Rightarrow> heap option"
and to_long_elems :: "nat \<Rightarrow> heap \<Rightarrow> addr list \<Rightarrow> (heap \<times> addr list) option"
where
  "to_long 0 h obj = None"
| "to_long (Suc n) h obj =
     (case lookup h obj of
        None \<Rightarrow> None
      | Some (ODict kvs) \<Rightarrow>
          (case to_long_items n h obj (map fst kvs) of
             None \<Rightarrow> None
           | Some h' \<Rightarrow> Some (h', obj))
      | Some (OList xs) \<Rightarrow>
          (case to_long_elems n h xs of
             None \<Rightarrow> None
           | Some (h', ys) \<Rightarrow> Some (alloc h' (OList ys)))
      | Some (OTuple xs) \<Rightarrow>
          (case to_long_elems n h xs of
             None \<Rightarrow> None
           | Some (h', ys) \<Rightarrow> Some (alloc h' (OList ys)))
      | Some (OLeaf (Tensor t)) \<Rightarrow>
          (case t_elems t of
             I16 ws \<Rightarrow> Some (alloc h (OLeaf (Tensor (t\<lparr>t_elems := I64 (map scast ws)\<rparr>))))
           | _ \<Rightarrow> Some (h, obj))
      | Some (OLeaf (Other x)) \<Rightarrow> Some (h, obj))"
| "to_long_items n h obj [] = Some h"
| "to_long_items n h obj (key # keys) =
     (case lookup h obj of
        Some (ODict kvs) \<Rightarrow>
          (case map_of kvs key of
             None \<Rightarrow> None
           | Some x \<Rightarrow>
              (case to_long n h x of
                 None \<Rightarrow> None
               | Some (h1, y) \<Rightarrow>
                  (case lookup h1 obj of
                     Some (ODict kvs1) \<Rightarrow>
                       to_long_items n (h1[obj := ODict (AList.update key y kvs1)]) obj keys
                   | _ \<Rightarrow> None)))
      | _ \<Rightarrow> None)"
| "to_long_elems n h [] = Some (h, [])"
| "to_long_elems n h (x # xs) =
     (case to_long n h x of
        None \<Rightarrow> None
      | Some (h1, y) \<Rightarrow>
          (case to_long_elems n h1 xs of
             None \<Rightarrow> None
           | Some (h2, ys) \<Rightarrow> Some (h2, y # ys)))"

text \<open>
  The nested containers of the specification: a mapping, an ordered sequence (the
  specification does not tell lists from tuples) or a leaf. \<open>repr h a v\<close> says that the
  object at address \<open>a\<close> of the heap \<open>h\<close> is the nested container \<open>v\<close>; objects may be
  shared, and a cyclic object represents no container.
\<close>

datatype 'l pyval =
    VDict "(string, 'l pyval) dict"
  | VSeq "'l pyval list"
  | VLeaf 'l

fun repr :: "heap \<Rightarrow> addr \<Rightarrow> leaf pyval \<Rightarrow> bool" where
  "repr h a (VDict kvs) =
     (case lookup h a of
        Some (ODict aks) \<Rightarrow>
          distinct (map fst aks) \<and> map fst aks = map fst kvs \<and>
          list_all2 (repr h) (map snd aks) (map snd kvs)
      | _ \<Rightarrow> False)"
| "repr h a (VSeq vs) =
     (case lookup h a of
        Some (OList xs) \<Rightarrow> list_all2 (repr h) xs vs
      | Some (OTuple xs) \<Rightarrow> list_all2 (repr h) xs vs
      | _ \<Rightarrow> False)"
| "repr h a (VLeaf l) = (lookup h a = Some (OLeaf l))"

text \<open>
  The specification of \<^verbatim>\<open>to_long\<close>: a leaf that is a 16-bit integer tensor becomes a
  64-bit integer tensor, every other leaf is unchanged, and the container keeps its shape.
\<close>

fun widen :: "leaf \<Rightarrow> leaf" where
  "widen (Tensor t) =
     (case t_elems t of I16 ws \<Rightarrow> Tensor (t\<lparr>t_elems := I64 (map scast ws)\<rparr>) | _ \<Rightarrow> Tensor t)"
| "widen (Other x) = Other x"

definition to_long_spec :: "leaf pyval \<Rightarrow> leaf pyval" where
  "to_long_spec v = map_pyval widen v"

text \<open>
  Notions for the proof. While \<^verbatim>\<open>to_long\<close> runs, a container that shares a dictionary
  with the argument can already have some of its leaves converted: \<open>pc u u'\<close> says that
  \<open>u'\<close> is \<open>u\<close> with some leaves converted, \<open>evolves h h'\<close> that every container of \<open>h\<close>
  is in \<open>h'\<close> the same container with some leaves converted, and \<open>keeps h h'\<close> that \<open>h'\<close>
  has every object of \<open>h\<close> that is not a dictionary, unchanged at its address.
\<close>

definition pc_leaf :: "leaf \<Rightarrow> leaf \<Rightarrow> bool" where
  "pc_leaf l l' = (l' = l \<or> l' = widen l)"

definition pc :: "leaf pyval \<Rightarrow> leaf pyval \<Rightarrow> bool" where
  "pc u u' = rel_pyval pc_leaf u u'"

definition evolves :: "heap \<Rightarrow> heap \<Rightarrow> bool" where
  "evolves h h' = (\<forall>a u. repr h a u \<longrightarrow> (\<exists>u'. repr h' a u' \<and> pc u u'))"

definition keeps :: "heap \<Rightarrow> heap \<Rightarrow> bool" where
  "keeps h h' =
     (length h \<le> length h' \<and>
      (\<forall>b x. lookup h b = Some x \<longrightarrow> (\<forall>kvs. x \<noteq> ODict kvs) \<longrightarrow> lookup h' b = Some x))"

text \<open>
  The entry of \<^verbatim>\<open>state_dict\<close> under a key of the model when the loop has run: the
  checkpoint's tensor when the checkpoint has the key with the same shape, the model's
  own tensor otherwise.
\<close>

definition merged :: "(string, pvalue) dict \<Rightarrow> string \<Rightarrow> tensor \<Rightarrow> tensor" where
  "merged pretrain_dict key cur =
     (case map_of pretrain_dict key of
        None \<Rightarrow> cur
      | Some pv \<Rightarrow> if pv_size pv = t_size cur then pv_value pv else cur)"

subsection \<open>\<^verbatim>\<open>rotate\<close>\<close>








subsection \<open>Concrete inputs\<close>

text \<open>
  An optimizer with two groups over a counting torch optimizer, with clipping bounds
  \<open>[-1, 1]\<close> set; a tensor copy that widens 16-bit integers into a 64-bit parameter; a
  small model and checkpoint.
\<close>

definition example_params :: "param list" where
  "example_params =
     [\<lparr>p_data = [Fin 5, Fin 6, Fin 7], p_grad = Some [Fin (- 2), Fin 0, Fin 3],
       p_cast = (\<lambda>x. x)\<rparr>,
      \<lparr>p_data = [Fin 1], p_grad = None, p_cast = (\<lambda>x. x)\<rparr>]"

definition example_optimizer :: "bool \<Rightarrow> nat Optimizer" where
  "example_optimizer clipping =
     \<lparr>coef = [1, 2],
      opt = \<lparr>param_groups = [\<lparr>pg_params = example_params, pg_lr = 0\<rparr>,
                             \<lparr>pg_params = [], pg_lr = 0\<rparr>],
             internal = 0\<rparr>,
      lr_func = \<lparr>lr = [1 / 1000, 1 / 10000], lr_epochs = [32]\<rparr>,
      clip_grads = clipping, clip_low = Some (Fin (- 1)), clip_high = Some (Fin 1)\<rparr>"


definition counting_step :: "nat torch_opt \<Rightarrow> nat torch_opt" where
  "counting_step t = t\<lparr>internal := internal t + 1\<rparr>"

definition plain_Adam :: "param_group list \<Rightarrow> py_error + nat torch_opt" where
  "plain_Adam groups =
     (if groups = [] then Inl ValueError else Inr \<lparr>param_groups = groups, internal = 0\<rparr>)"

definition example_copy :: "tensor \<Rightarrow> tensor \<Rightarrow> tensor" where
  "example_copy cur v =
     cur\<lparr>t_elems := (case (t_elems cur, t_elems v) of
                        (I64 _, I16 ws) \<Rightarrow> I64 (map scast ws)
                      | (_, e) \<Rightarrow> e)\<rparr>"

definition example_net :: "(string, tensor) dict" where
  "example_net =
     [(''w'', \<lparr>t_size = [2], t_elems = I64 [0, 0]\<rparr>),
      (''b'', \<lparr>t_size = [1], t_elems = F32 [Fin 0]\<rparr>),
      (''c'', \<lparr>t_size = [2], t_elems = F32 [Fin 0, Fin 0]\<rparr>)]"

definition example_pretrain :: "(string, pvalue) dict" where
  "example_pretrain =
     [(''b'', PTensor \<lparr>t_size = [3], t_elems = F32 [Fin 7, Fin 8, Fin 9]\<rparr>),
      (''extra'', PTensor \<lparr>t_size = [1], t_elems = F32 [Fin 4]\<rparr>),
      (''w'', PTensor \<lparr>t_size = [2], t_elems = I16 [5, - 6]\<rparr>),
      (''c'', PWrapped \<lparr>t_size = [2], t_elems = F32 [Fin 5, NaN]\<rparr>)]"

definition getitem_list :: "int list \<Rightarrow> nat \<Rightarrow> py_error + int" where
  "getitem_list xs i = (if i < length xs then Inr (xs ! i) else Inl IndexError)"

text \<open>
  A heap with a dictionary at address 0 whose values are a 16-bit tensor and a tuple of
  that same tensor and a string, and the nested container it represents.
\<close>

definition example_heap :: heap where
  "example_heap =
     [ODict [(''a'', 1), (''b'', 2)],
      OLeaf (Tensor \<lparr>t_size = [2], t_elems = I16 [1, - 1]\<rparr>),
      OTuple [1, 3],
      OLeaf (Other ''name'')]"

definition example_value :: "leaf pyval" where
  "example_value =
     VDict [(''a'', VLeaf (Tensor \<lparr>t_size = [2], t_elems = I16 [1, - 1]\<rparr>)),
            (''b'', VSeq [VLeaf (Tensor \<lparr>t_size = [2], t_elems = I16 [1, - 1]\<rparr>),
                        VLeaf (Other ''name'')])]"

section \<open>Properties\<close>

subsection \<open>The schedule\<close>

lemma StepLR_scan_bounds:
  "idx \<le> StepLR_scan epoch ths idx \<and> StepLR_scan epoch ths idx \<le> idx + length ths"
proof (induction ths arbitrary: idx)
  case Nil
  show ?case by simp
next
  case (Cons t ths)
  from Cons.IH [of "idx + 1"] show ?case by auto
qed

lemma StepLR_scan_before:
  "j < StepLR_scan epoch ths idx - idx \<Longrightarrow> \<not> epoch < ths ! j"
proof (induction ths arbitrary: idx j)
  case Nil
  then show ?case by simp
next
  case (Cons t ths)
  show ?case
  proof (cases "epoch < t")
    case True
    with Cons.prems show ?thesis by simp
  next
    case False
    show ?thesis
    proof (cases j)
      case 0
      with False show ?thesis by simp
    next
      case (Suc k)
      from Cons.prems False Suc have "k < StepLR_scan epoch ths (idx + 1) - (idx + 1)"
        by simp
      from Cons.IH [OF this] Suc show ?thesis by simp
    qed
  qed
qed

lemma StepLR_scan_at:
  "StepLR_scan epoch ths idx - idx < length ths \<Longrightarrow>
   epoch < ths ! (StepLR_scan epoch ths idx - idx)"
proof (induction ths arbitrary: idx)
  case Nil
  then show ?case by simp
next
  case (Cons t ths)
  show ?case
  proof (cases "epoch < t")
    case True
    then show ?thesis by simp
  next
    case False
    have lb: "idx + 1 \<le> StepLR_scan epoch ths (idx + 1)"
      using StepLR_scan_bounds [of "idx + 1" epoch ths] by simp
    then have eq: "StepLR_scan epoch ths (idx + 1) - idx
                 = Suc (StepLR_scan epoch ths (idx + 1) - (idx + 1))"
      by simp
    from Cons.prems False eq
    have "StepLR_scan epoch ths (idx + 1) - (idx + 1) < length ths" by simp
    from Cons.IH [OF this] False eq show ?thesis by simp
  qed
qed

text \<open>
  Claim C7. Constructing a \<^verbatim>\<open>StepLR\<close> fails with the assertion whenever
  \<open>len(rates) \<noteq> len(thresholds) + 1\<close> and succeeds, storing both lists, whenever
  \<open>len(rates) = len(thresholds) + 1\<close>.
\<close>

theorem StepLR_init_validates:
  "(length rates \<noteq> length thresholds + 1 \<longrightarrow>
      StepLR_init rates thresholds = Inl AssertionError) \<and>
   (length rates = length thresholds + 1 \<longrightarrow>
      StepLR_init rates thresholds = Inr \<lparr>lr = rates, lr_epochs = thresholds\<rparr>)"
  by (auto simp: StepLR_init_def)

theorem StepLR_init_validates_witness:
  "length [1 / 1000, 1 / 10000 :: real] = length [32 :: int] + 1 \<and>
   StepLR_init [1 / 1000, 1 / 10000] [32]
     = Inr \<lparr>lr = [1 / 1000, 1 / 10000], lr_epochs = [32]\<rparr> \<and>
   length [1 / 1000 :: real] \<noteq> length [32 :: int] + 1 \<and>
   StepLR_init [1 / 1000] [32] = Inl AssertionError \<and>
   length [1, 2, 3 :: real] \<noteq> length [32 :: int] + 1 \<and>
   StepLR_init [1, 2, 3] [32] = Inl AssertionError"
  using StepLR_init_validates [of "[1 / 1000, 1 / 10000]" "[32]"]
        StepLR_init_validates [of "[1 / 1000]" "[32]"]
        StepLR_init_validates [of "[1, 2, 3]" "[32]"]
  by simp

text \<open>
  Claim C1. For a \<^verbatim>\<open>StepLR\<close> constructed from \<open>rates\<close> and \<open>thresholds\<close> with
  \<open>len(rates) = len(thresholds) + 1\<close>, the schedule at any epoch returns \<open>rates[idx]\<close>,
  where \<open>idx\<close> is the smallest index with \<open>epoch < thresholds[idx]\<close>, or
  \<open>len(thresholds)\<close> when no threshold satisfies that. With rates \<open>[1e-3, 1e-4]\<close> and
  thresholds \<open>[32]\<close> it returns \<open>1e-3\<close> at epochs 0 and 31 and \<open>1e-4\<close> at epochs 32
  and 1000.
\<close>

theorem StepLR_call_smallest_index:
  assumes "length rates = length thresholds + 1"
  shows "\<exists>s idx. StepLR_init rates thresholds = Inr s \<and>
           StepLR_call s epoch = Inr (rates ! idx) \<and>
           idx \<le> length thresholds \<and>
           (\<forall>j < idx. \<not> epoch < thresholds ! j) \<and>
           (idx < length thresholds \<longrightarrow> epoch < thresholds ! idx) \<and>
           (idx = length thresholds \<longrightarrow> (\<forall>j < length thresholds. \<not> epoch < thresholds ! j))"
proof -
  define idx where "idx = StepLR_scan epoch thresholds 0"
  have le: "idx \<le> length thresholds"
    using StepLR_scan_bounds [of 0 epoch thresholds] by (simp add: idx_def)
  have before: "\<forall>j < idx. \<not> epoch < thresholds ! j"
    using StepLR_scan_before [of _ epoch thresholds 0] by (simp add: idx_def)
  have at: "idx < length thresholds \<longrightarrow> epoch < thresholds ! idx"
    using StepLR_scan_at [of epoch thresholds 0] by (simp add: idx_def)
  have init: "StepLR_init rates thresholds = Inr \<lparr>lr = rates, lr_epochs = thresholds\<rparr>"
    using assms by (simp add: StepLR_init_def)
  have call: "StepLR_call \<lparr>lr = rates, lr_epochs = thresholds\<rparr> epoch = Inr (rates ! idx)"
    using le assms by (simp add: StepLR_call_def idx_def Let_def)
  from init call le before at show ?thesis by blast
qed

theorem StepLR_call_smallest_index_witness:
  "StepLR_init [1 / 1000, 1 / 10000] [32] = Inr \<lparr>lr = [1 / 1000, 1 / 10000], lr_epochs = [32]\<rparr> \<and>
   StepLR_call \<lparr>lr = [1 / 1000, 1 / 10000], lr_epochs = [32]\<rparr> 0 = Inr (1 / 1000) \<and>
   StepLR_call \<lparr>lr = [1 / 1000, 1 / 10000], lr_epochs = [32]\<rparr> 31 = Inr (1 / 1000) \<and>
   StepLR_call \<lparr>lr = [1 / 1000, 1 / 10000], lr_epochs = [32]\<rparr> 32 = Inr (1 / 10000) \<and>
   StepLR_call \<lparr>lr = [1 / 1000, 1 / 10000], lr_epochs = [32]\<rparr> 1000 = Inr (1 / 10000)"
proof -
  have len: "length [1 / 1000, 1 / 10000 :: real] = length [32 :: int] + 1" by simp
  have init: "StepLR_init [1 / 1000, 1 / 10000] [32]
                = Inr \<lparr>lr = [1 / 1000, 1 / 10000], lr_epochs = [32]\<rparr>"
    by (simp add: StepLR_init_def)
  have pick: "StepLR_call \<lparr>lr = [1 / 1000, 1 / 10000], lr_epochs = [32]\<rparr> e
                = Inr ([1 / 1000, 1 / 10000] ! (if e < 32 then 0 else 1))" for e
  proof -
    from StepLR_call_smallest_index [OF len, of e] init
    obtain idx where c: "StepLR_call \<lparr>lr = [1 / 1000, 1 / 10000], lr_epochs = [32]\<rparr> e
                           = Inr ([1 / 1000, 1 / 10000] ! idx)"
      and le: "idx \<le> length [32 :: int]"
      and b: "\<forall>j < idx. \<not> e < [32 :: int] ! j"
      and a: "idx < length [32 :: int] \<longrightarrow> e < [32 :: int] ! idx"
      by auto
    have "idx = (if e < 32 then 0 else 1)"
    proof (cases "idx = 0")
      case True
      with a show ?thesis by simp
    next
      case False
      with le have i1: "idx = 1" by simp
      with b have "\<not> e < 32" by simp
      with i1 show ?thesis by simp
    qed
    with c show ?thesis by simp
  qed
  from init pick [of 0] pick [of 31] pick [of 32] pick [of 1000] show ?thesis by simp
qed


subsection \<open>Gradient clipping\<close>












subsection \<open>The optimizer wrapper\<close>

lemma set_lrs_enumerate:
  "i + length gs \<le> length cs \<Longrightarrow>
   set_lrs rate cs i gs
     = Inr (map (\<lambda>(j, g). g\<lparr>pg_lr := rate * cs ! j\<rparr>) (List.enumerate i gs))"
proof (induction gs arbitrary: i)
  case Nil
  show ?case by simp
next
  case (Cons g gs)
  from Cons.prems have "(i + 1) + length gs \<le> length cs" and "i < length cs" by simp_all
  with Cons.IH [of "i + 1"] show ?case by simp
qed

lemma clip_frame:
  "clip s = Inr s1 \<Longrightarrow>
   coef s1 = coef s \<and> lr_func s1 = lr_func s \<and> clip_grads s1 = clip_grads s \<and>
   length (param_groups (opt s1)) = length (param_groups (opt s))"
  by (auto simp: clip_def split: option.splits)

lemma step_run:
  assumes sched: "StepLR_call (lr_func s) epoch = Inr rate"
      and len: "length (param_groups (opt s)) \<le> length (coef s)"
  shows "(\<not> clip_grads s \<longrightarrow>
            step torch_step s epoch
              = Inr (s\<lparr>opt := torch_step ((opt s)\<lparr>param_groups :=
                        map (\<lambda>(i, g). g\<lparr>pg_lr := rate * coef s ! i\<rparr>)
                            (List.enumerate 0 (param_groups (opt s)))\<rparr>)\<rparr>, rate)) \<and>
         (clip_grads s \<longrightarrow>
            (\<forall>s1. clip s = Inr s1 \<longrightarrow>
               step torch_step s epoch
                 = Inr (s1\<lparr>opt := torch_step ((opt s1)\<lparr>param_groups :=
                           map (\<lambda>(i, g). g\<lparr>pg_lr := rate * coef s ! i\<rparr>)
                               (List.enumerate 0 (param_groups (opt s1)))\<rparr>)\<rparr>, rate)) \<and>
            (\<forall>e. clip s = Inl e \<longrightarrow> step torch_step s epoch = Inl e))"
proof (intro conjI impI allI)
  assume "\<not> clip_grads s"
  moreover have "set_lrs rate (coef s) 0 (param_groups (opt s))
      = Inr (map (\<lambda>(i, g). g\<lparr>pg_lr := rate * coef s ! i\<rparr>)
               (List.enumerate 0 (param_groups (opt s))))"
    using len by (simp add: set_lrs_enumerate)
  ultimately show "step torch_step s epoch
              = Inr (s\<lparr>opt := torch_step ((opt s)\<lparr>param_groups :=
                        map (\<lambda>(i, g). g\<lparr>pg_lr := rate * coef s ! i\<rparr>)
                            (List.enumerate 0 (param_groups (opt s)))\<rparr>)\<rparr>, rate)"
    using sched by (simp add: step_def)
next
  fix s1 assume on: "clip_grads s" and c: "clip s = Inr s1"
  note fr = clip_frame [OF c]
  have "set_lrs rate (coef s1) 0 (param_groups (opt s1))
      = Inr (map (\<lambda>(i, g). g\<lparr>pg_lr := rate * coef s ! i\<rparr>)
               (List.enumerate 0 (param_groups (opt s1))))"
    using len fr by (simp add: set_lrs_enumerate)
  then show "step torch_step s epoch
                 = Inr (s1\<lparr>opt := torch_step ((opt s1)\<lparr>param_groups :=
                           map (\<lambda>(i, g). g\<lparr>pg_lr := rate * coef s ! i\<rparr>)
                               (List.enumerate 0 (param_groups (opt s1)))\<rparr>)\<rparr>, rate)"
    using on c sched fr by (simp add: step_def)
next
  fix e assume "clip_grads s" and "clip s = Inl e"
  then show "step torch_step s epoch = Inl e" by (simp add: step_def)
qed

text \<open>
  Claim C2. With gradient clipping disabled, \<^verbatim>\<open>step(epoch)\<close> sets the learning rate
  of every parameter group \<open>i\<close> to \<open>schedule(epoch) * coef[i]\<close>, then delegates the
  update to the torch optimizer, and returns the unscaled rate \<open>schedule(epoch)\<close>. With
  clipping enabled the gradients are clamped first: the rates are set on, and the torch
  update is run on, the state that \<^verbatim>\<open>clip()\<close> left; an exception of \<^verbatim>\<open>clip()\<close>
  propagates.
\<close>

theorem step_sets_rates_and_returns_base_rate:
  assumes sched: "StepLR_call (lr_func s) epoch = Inr rate"
      and len: "length (param_groups (opt s)) \<le> length (coef s)"
  shows "(\<not> clip_grads s \<longrightarrow>
            step torch_step s epoch
              = Inr (s\<lparr>opt := torch_step ((opt s)\<lparr>param_groups :=
                        map (\<lambda>(i, g). g\<lparr>pg_lr := rate * coef s ! i\<rparr>)
                            (List.enumerate 0 (param_groups (opt s)))\<rparr>)\<rparr>, rate)) \<and>
         (clip_grads s \<longrightarrow>
            (\<forall>s1. clip s = Inr s1 \<longrightarrow>
               step torch_step s epoch
                 = Inr (s1\<lparr>opt := torch_step ((opt s1)\<lparr>param_groups :=
                           map (\<lambda>(i, g). g\<lparr>pg_lr := rate * coef s ! i\<rparr>)
                               (List.enumerate 0 (param_groups (opt s1)))\<rparr>)\<rparr>, rate)) \<and>
            (\<forall>e. clip s = Inl e \<longrightarrow> step torch_step s epoch = Inl e))"
  using sched len by (rule step_run)

theorem step_sets_rates_and_returns_base_rate_witness:
  "StepLR_call (lr_func (example_optimizer False)) 40 = Inr (1 / 10000) \<and>
   length (param_groups (opt (example_optimizer False))) \<le> length (coef (example_optimizer False)) \<and>
   \<not> clip_grads (example_optimizer False) \<and>
   step counting_step (example_optimizer False) 40
     = Inr (\<lparr>coef = [1, 2],
             opt = \<lparr>param_groups = [\<lparr>pg_params = example_params, pg_lr = 1 / 10000\<rparr>,
                                    \<lparr>pg_params = [], pg_lr = 2 / 10000\<rparr>],
                    internal = 1\<rparr>,
             lr_func = \<lparr>lr = [1 / 1000, 1 / 10000], lr_epochs = [32]\<rparr>,
             clip_grads = False, clip_low = Some (Fin (- 1)), clip_high = Some (Fin 1)\<rparr>, 1 / 10000) \<and>
   StepLR_call (lr_func (example_optimizer True)) 3 = Inr (1 / 1000) \<and>
   clip_grads (example_optimizer True) \<and>
   step counting_step (example_optimizer True) 3
     = Inr (\<lparr>coef = [1, 2],
             opt = \<lparr>param_groups =
                      [\<lparr>pg_params = [\<lparr>p_data = [Fin 5, Fin 6, Fin 7],
                                        p_grad = Some [Fin (- 1), Fin 0, Fin 1],
                                        p_cast = (\<lambda>x. x)\<rparr>,
                                      \<lparr>p_data = [Fin 1], p_grad = None,
                                        p_cast = (\<lambda>x. x)\<rparr>],
                        pg_lr = 1 / 1000\<rparr>,
                       \<lparr>pg_params = [], pg_lr = 2 / 1000\<rparr>],
                    internal = 1\<rparr>,
             lr_func = \<lparr>lr = [1 / 1000, 1 / 10000], lr_epochs = [32]\<rparr>,
             clip_grads = True, clip_low = Some (Fin (- 1)), clip_high = Some (Fin 1)\<rparr>, 1 / 1000)"
proof -
  have s40: "StepLR_call (lr_func (example_optimizer c)) 40 = Inr (1 / 10000)"
    and s3: "StepLR_call (lr_func (example_optimizer c)) 3 = Inr (1 / 1000)"
    and len: "length (param_groups (opt (example_optimizer c))) \<le> length (coef (example_optimizer c))"
    for c
    by (simp_all add: example_optimizer_def StepLR_call_def)
  have cl: "clip (example_optimizer True)
      = Inr ((example_optimizer True)\<lparr>opt := (opt (example_optimizer True))\<lparr>param_groups :=
           [\<lparr>pg_params = [\<lparr>p_data = [Fin 5, Fin 6, Fin 7], p_grad = Some [Fin (- 1), Fin 0, Fin 1],
                             p_cast = (\<lambda>x. x)\<rparr>,
                           \<lparr>p_data = [Fin 1], p_grad = None, p_cast = (\<lambda>x. x)\<rparr>], pg_lr = 0\<rparr>,
            \<lparr>pg_params = [], pg_lr = 0\<rparr>]\<rparr>\<rparr>)"
    by (simp add: clip_def example_optimizer_def example_params_def clip_param_def
          clip_tensor_def)
  have on: "clip_grads (example_optimizer True)" and off: "\<not> clip_grads (example_optimizer False)"
    by (simp_all add: example_optimizer_def)
  from step_sets_rates_and_returns_base_rate [OF s40 len, of False counting_step] off
  have a: "step counting_step (example_optimizer False) 40
     = Inr (\<lparr>coef = [1, 2],
             opt = \<lparr>param_groups = [\<lparr>pg_params = example_params, pg_lr = 1 / 10000\<rparr>,
                                    \<lparr>pg_params = [], pg_lr = 2 / 10000\<rparr>],
                    internal = 1\<rparr>,
             lr_func = \<lparr>lr = [1 / 1000, 1 / 10000], lr_epochs = [32]\<rparr>,
             clip_grads = False, clip_low = Some (Fin (- 1)), clip_high = Some (Fin 1)\<rparr>, 1 / 10000)"
    by (simp add: example_optimizer_def counting_step_def enumerate_eq_zip upt_rec)
  from step_sets_rates_and_returns_base_rate [OF s3 len, of True counting_step] on cl
  have b: "step counting_step (example_optimizer True) 3
     = Inr (\<lparr>coef = [1, 2],
             opt = \<lparr>param_groups =
                      [\<lparr>pg_params = [\<lparr>p_data = [Fin 5, Fin 6, Fin 7],
                                        p_grad = Some [Fin (- 1), Fin 0, Fin 1],
                                        p_cast = (\<lambda>x. x)\<rparr>,
                                      \<lparr>p_data = [Fin 1], p_grad = None,
                                        p_cast = (\<lambda>x. x)\<rparr>],
                        pg_lr = 1 / 1000\<rparr>,
                       \<lparr>pg_params = [], pg_lr = 2 / 1000\<rparr>],
                    internal = 1\<rparr>,
             lr_func = \<lparr>lr = [1 / 1000, 1 / 10000], lr_epochs = [32]\<rparr>,
             clip_grads = True, clip_low = Some (Fin (- 1)), clip_high = Some (Fin 1)\<rparr>, 1 / 1000)"
    by (simp add: example_optimizer_def counting_step_def enumerate_eq_zip upt_rec)
  from s40 [of False] s3 [of True] len [of False] on off a b show ?thesis by blast
qed

lemma StepLR_call_config:
  "StepLR_call \<lparr>lr = [1 / 1000, 1 / 10000], lr_epochs = [32]\<rparr> epoch
     = Inr (if epoch < 32 then 1 / 1000 else 1 / 10000)"
  by (simp add: StepLR_call_def)

lemma enumerate_unit_coef:
  "i + length gs \<le> n \<Longrightarrow>
   map (\<lambda>(j, g). g\<lparr>pg_lr := rate * replicate n 1 ! j\<rparr>) (List.enumerate i gs)
     = map (\<lambda>g. g\<lparr>pg_lr := rate\<rparr>) gs"
  by (induction gs arbitrary: i) simp_all

lemma Optimizer_init_run:
  assumes "Adam (map (\<lambda>p. \<lparr>pg_params = p, pg_lr = 0\<rparr>) params) = Inr torch"
  shows "Optimizer_init Adam (ParamSeq params) coef_arg
           = Inr \<lparr>coef = replicate (length params) 1, opt = torch,
                  lr_func = \<lparr>lr = [1 / 1000, 1 / 10000], lr_epochs = [32]\<rparr>,
                  clip_grads = False, clip_low = None, clip_high = None\<rparr>"
  using assms by (simp add: Optimizer_init_def StepLR_init_def Let_def)

text \<open>
  Claim C3. For every list of parameter groups \<open>params\<close> and every value passed as
  \<^verbatim>\<open>coef\<close>, of any type, \<^verbatim>\<open>Optimizer.__init__\<close> sets \<^verbatim>\<open>self.coef\<close> to
  \<open>[1.0] * len(params)\<close>: the constructed optimizer does not depend on the argument, and
  in \<^verbatim>\<open>step(epoch)\<close> every parameter group gets the base scheduled rate. The torch
  constructor is assumed to succeed and to keep one group per given group.
\<close>

theorem Optimizer_init_ignores_coef:
  assumes adam: "Adam (map (\<lambda>p. \<lparr>pg_params = p, pg_lr = 0\<rparr>) params) = Inr torch"
      and groups: "length (param_groups torch) = length params"
  shows "Optimizer_init Adam (ParamSeq params) coef_arg
           = Optimizer_init Adam (ParamSeq params) other_arg \<and>
         (\<exists>s rate. Optimizer_init Adam (ParamSeq params) coef_arg = Inr s \<and>
            coef s = replicate (length params) 1 \<and>
            StepLR_call (lr_func s) epoch = Inr rate \<and>
            step torch_step s epoch
              = Inr (s\<lparr>opt := torch_step ((opt s)\<lparr>param_groups :=
                        map (\<lambda>g. g\<lparr>pg_lr := rate\<rparr>) (param_groups (opt s))\<rparr>)\<rparr>, rate))"
proof -
  define s where "s = \<lparr>coef = replicate (length params) 1, opt = torch,
                  lr_func = \<lparr>lr = [1 / 1000, 1 / 10000], lr_epochs = [32]\<rparr>,
                  clip_grads = False, clip_low = None, clip_high = None\<rparr>"
  define rate :: real where "rate = (if epoch < 32 then 1 / 1000 else 1 / 10000)"
  have init: "Optimizer_init Adam (ParamSeq params) c = Inr s" for c :: 'x
    unfolding s_def using adam by (rule Optimizer_init_run)
  have sched: "StepLR_call (lr_func s) epoch = Inr rate"
    by (simp add: s_def rate_def StepLR_call_config)
  have len: "length (param_groups (opt s)) \<le> length (coef s)"
    using groups by (simp add: s_def)
  have off: "\<not> clip_grads s" by (simp add: s_def)
  have scaled: "map (\<lambda>(i, g). g\<lparr>pg_lr := rate * coef s ! i\<rparr>)
                  (List.enumerate 0 (param_groups (opt s)))
                = map (\<lambda>g. g\<lparr>pg_lr := rate\<rparr>) (param_groups (opt s))"
    using groups enumerate_unit_coef [of 0 "param_groups torch" "length params" rate]
    by (simp add: s_def)
  have run: "step torch_step s epoch
              = Inr (s\<lparr>opt := torch_step ((opt s)\<lparr>param_groups :=
                        map (\<lambda>g. g\<lparr>pg_lr := rate\<rparr>) (param_groups (opt s))\<rparr>)\<rparr>, rate)"
    using step_run [OF sched len, of torch_step] off scaled
    by simp
  have c: "coef s = replicate (length params) 1" by (simp add: s_def)
  have same: "Optimizer_init Adam (ParamSeq params) coef_arg
           = Optimizer_init Adam (ParamSeq params) other_arg"
    using adam by (simp add: Optimizer_init_run)
  have "\<exists>s rate. Optimizer_init Adam (ParamSeq params) coef_arg = Inr s \<and>
            coef s = replicate (length params) 1 \<and>
            StepLR_call (lr_func s) epoch = Inr rate \<and>
            step torch_step s epoch
              = Inr (s\<lparr>opt := torch_step ((opt s)\<lparr>param_groups :=
                        map (\<lambda>g. g\<lparr>pg_lr := rate\<rparr>) (param_groups (opt s))\<rparr>)\<rparr>, rate)"
    using adam sched run c by (auto simp: Optimizer_init_run s_def [symmetric])
  with same show ?thesis ..
qed

theorem Optimizer_init_ignores_coef_witness:
  "plain_Adam (map (\<lambda>p. \<lparr>pg_params = p, pg_lr = 0\<rparr>) [example_params, []])
     = Inr \<lparr>param_groups = [\<lparr>pg_params = example_params, pg_lr = 0\<rparr>,
                            \<lparr>pg_params = [], pg_lr = 0\<rparr>], internal = 0\<rparr> \<and>
   Optimizer_init plain_Adam (ParamSeq [example_params, []]) (Some [1 / 2, 3 :: real])
     = Optimizer_init plain_Adam (ParamSeq [example_params, []]) (None :: real list option) \<and>
   (\<exists>s. Optimizer_init plain_Adam (ParamSeq [example_params, []]) (Some [1 / 2, 3 :: real]) = Inr s \<and>
        coef s = [1, 1] \<and>
        (\<exists>s'. step counting_step s 40 = Inr (s', 1 / 10000) \<and>
              map pg_lr (param_groups (opt s')) = [1 / 10000, 1 / 10000]))"
proof -
  let ?torch = "\<lparr>param_groups = [\<lparr>pg_params = example_params, pg_lr = 0\<rparr>,
                                 \<lparr>pg_params = [], pg_lr = 0\<rparr>], internal = 0 :: nat\<rparr>"
  have adam: "plain_Adam (map (\<lambda>p. \<lparr>pg_params = p, pg_lr = 0\<rparr>) [example_params, []]) = Inr ?torch"
    by (simp add: plain_Adam_def)
  have groups: "length (param_groups ?torch) = length [example_params, []]" by simp
  from Optimizer_init_ignores_coef [where Adam = plain_Adam and coef_arg = "Some [1 / 2, 3 :: real]"
         and other_arg = "None :: real list option" and epoch = 40 and torch_step = counting_step,
         OF adam groups]
  obtain s rate where same: "Optimizer_init plain_Adam (ParamSeq [example_params, []]) (Some [1 / 2, 3 :: real])
     = Optimizer_init plain_Adam (ParamSeq [example_params, []]) (None :: real list option)"
    and init: "Optimizer_init plain_Adam (ParamSeq [example_params, []]) (Some [1 / 2, 3 :: real]) = Inr s"
    and c: "coef s = replicate (length [example_params, []]) 1"
    and sched: "StepLR_call (lr_func s) 40 = Inr rate"
    and run: "step counting_step s 40
              = Inr (s\<lparr>opt := counting_step ((opt s)\<lparr>param_groups :=
                        map (\<lambda>g. g\<lparr>pg_lr := rate\<rparr>) (param_groups (opt s))\<rparr>)\<rparr>, rate)"
    by blast
  from init adam have s: "s = \<lparr>coef = [1, 1], opt = ?torch,
                  lr_func = \<lparr>lr = [1 / 1000, 1 / 10000], lr_epochs = [32]\<rparr>,
                  clip_grads = False, clip_low = None, clip_high = None\<rparr>"
    by (simp add: Optimizer_init_def StepLR_init_def Let_def)
  from sched have rate: "rate = 1 / 10000"
    by (simp add: s StepLR_call_def)
  from run have stepped: "\<exists>s'. step counting_step s 40 = Inr (s', 1 / 10000) \<and>
              map pg_lr (param_groups (opt s')) = [1 / 10000, 1 / 10000]"
    by (simp add: rate s counting_step_def)
  from c have ones: "coef s = [1, 1]" by (simp add: numeral_2_eq_2)
  have "\<exists>s. Optimizer_init plain_Adam (ParamSeq [example_params, []]) (Some [1 / 2, 3 :: real]) = Inr s \<and>
        coef s = [1, 1] \<and>
        (\<exists>s'. step counting_step s 40 = Inr (s', 1 / 10000) \<and>
              map pg_lr (param_groups (opt s')) = [1 / 10000, 1 / 10000])"
    by (rule exI [of _ s]) (intro conjI init ones stepped)
  with adam same show ?thesis by (intro conjI)
qed

text \<open>
  Claim C5. \<^verbatim>\<open>Optimizer.state_dict()\<close> returns the three fields \<^verbatim>\<open>lr_func\<close> (itself
  \<open>lr\<close> and \<open>lr_epochs\<close>), \<^verbatim>\<open>coef\<close> and \<^verbatim>\<open>opt_state\<close>, whereas
  \<^verbatim>\<open>load_state_dict(opt_state)\<close> only forwards its argument to the torch optimizer's
  restore: after any call, also one that raised, the wrapper's \<^verbatim>\<open>coef\<close> and schedule
  are what they were, and only the torch optimizer is what the restore left.
\<close>

theorem state_dict_three_fields_load_forwards:
  "Optimizer_state_dict torch_state_dict s
     = \<lparr>sd_lr_func = \<lparr>snap_lr = lr (lr_func s), snap_lr_epochs = lr_epochs (lr_func s)\<rparr>,
        sd_coef = coef s, sd_opt_state = torch_state_dict (opt s)\<rparr> \<and>
   coef (fst (Optimizer_load_state_dict torch_load s opt_state)) = coef s \<and>
   lr_func (fst (Optimizer_load_state_dict torch_load s opt_state)) = lr_func s \<and>
   opt (fst (Optimizer_load_state_dict torch_load s opt_state))
     = fst (torch_load (opt s) opt_state) \<and>
   snd (Optimizer_load_state_dict torch_load s opt_state) = snd (torch_load (opt s) opt_state) \<and>
   Optimizer_load_state_dict torch_load s opt_state
     = (s\<lparr>opt := fst (torch_load (opt s) opt_state)\<rparr>, snd (torch_load (opt s) opt_state))"
  by (simp add: Optimizer_state_dict_def StepLR_state_dict_def Optimizer_load_state_dict_def
        split: prod.splits)

subsection \<open>Dictionaries\<close>

lemma update_absent: "k \<notin> fst ` set al \<Longrightarrow> AList.update k v al = al @ [(k, v)]"
  by (induction al) auto

lemma update_present:
  "distinct (map fst al) \<Longrightarrow> map_of al k = Some c \<Longrightarrow>
   AList.update k v al = map (\<lambda>(k', c'). (k', if k' = k then v else c')) al"
proof (induction al)
  case Nil
  then show ?case by simp
next
  case (Cons a al)
  obtain k0 c0 where a: "a = (k0, c0)" by (cases a)
  show ?case
  proof (cases "k0 = k")
    case True
    with Cons.prems a have "k \<notin> fst ` set al" by auto
    then have "map (\<lambda>(k', c'). (k', if k' = k then v else c')) al = al"
      by (induction al) auto
    with True a show ?thesis by simp
  next
    case False
    with Cons a show ?thesis by simp
  qed
qed

lemma index_dict_loop_run:
  assumes "distinct ks" and "set ks \<subseteq> fst ` set d" and "set ks \<inter> fst ` set acc = {}"
      and "\<forall>(k, v) \<in> set d. \<exists>r. getitem v idcs = Inr r"
  shows "index_dict_loop getitem idcs ks \<lparr>data = d, returns = acc\<rparr>
           = Inr \<lparr>data = d,
                  returns = acc @ map (\<lambda>k. (k, projr (getitem (the (map_of d k)) idcs))) ks\<rparr>"
  using assms
proof (induction ks arbitrary: acc)
  case Nil
  show ?case by simp
next
  case (Cons k ks)
  from Cons.prems(2) obtain v where v: "map_of d k = Some v"
    by (cases "map_of d k") (auto simp: map_of_eq_None_iff)
  then have "(k, v) \<in> set d" by (rule map_of_SomeD)
  with Cons.prems(4) obtain r where r: "getitem v idcs = Inr r" by auto
  from Cons.prems(3) have fresh: "k \<notin> fst ` set acc" by auto
  have disj: "set ks \<inter> fst ` set (acc @ [(k, r)]) = {}"
    using Cons.prems(1,3) by auto
  from Cons.prems(1,2) have "distinct ks" "set ks \<subseteq> fst ` set d" by auto
  from Cons.IH [OF this disj Cons.prems(4)] v r fresh
  show ?case by (simp add: update_absent)
qed

lemma map_keys_lookup:
  "distinct (map fst d) \<Longrightarrow>
   map (\<lambda>k. (k, f (the (map_of d k)))) (map fst d) = map (\<lambda>(k, v). (k, f v)) d"
proof -
  assume dist: "distinct (map fst d)"
  have "\<forall>(k, v) \<in> set d. map_of d k = Some v"
    using dist by auto
  then show ?thesis by (auto simp: map_eq_conv comp_def split: prod.splits)
qed

text \<open>
  Claim C8. For a dictionary \<open>d\<close> and a selector \<open>idcs\<close> such that every value of \<open>d\<close>
  can be indexed by \<open>idcs\<close>, \<^verbatim>\<open>index_dict(d, idcs)\<close> returns a new dictionary with
  exactly the keys of \<open>d\<close>, where the entry of each key is \<open>d[key][idcs]\<close>; \<open>d\<close> is the
  same after the call.
\<close>

theorem index_dict_selects_every_key:
  assumes dist: "distinct (map fst d)"
      and ok: "\<forall>(k, v) \<in> set d. \<exists>r. getitem v idcs = Inr r"
  shows "\<exists>res. index_dict getitem d idcs = Inr \<lparr>data = d, returns = res\<rparr> \<and>
           map fst res = map fst d \<and>
           distinct (map fst res) \<and>
           (\<forall>(k, v) \<in> set d. \<exists>r. getitem v idcs = Inr r \<and> map_of res k = Some r)"
proof -
  define res where "res = map (\<lambda>(k, v). (k, projr (getitem v idcs))) d"
  have "index_dict getitem d idcs
          = Inr \<lparr>data = d, returns = [] @ map (\<lambda>k. (k, projr (getitem (the (map_of d k)) idcs))) (map fst d)\<rparr>"
    unfolding index_dict_def
    using dist ok by (intro index_dict_loop_run) auto
  then have run: "index_dict getitem d idcs = Inr \<lparr>data = d, returns = res\<rparr>"
    using map_keys_lookup [OF dist, of "\<lambda>v. projr (getitem v idcs)"] by (simp add: res_def)
  have keys: "map fst res = map fst d"
    by (auto simp: res_def comp_def split: prod.splits)
  have look: "\<forall>(k, v) \<in> set d. \<exists>r. getitem v idcs = Inr r \<and> map_of res k = Some r"
  proof (clarify)
    fix k v assume kv: "(k, v) \<in> set d"
    with ok obtain r where r: "getitem v idcs = Inr r" by auto
    from kv have "(k, projr (getitem v idcs)) \<in> set res"
      by (force simp: res_def)
    with dist keys have "map_of res k = Some (projr (getitem v idcs))"
      by (simp add: map_of_is_SomeI)
    with r show "\<exists>r. getitem v idcs = Inr r \<and> map_of res k = Some r" by simp
  qed
  from run keys look dist show ?thesis by auto
qed

theorem index_dict_selects_every_key_witness:
  "distinct (map fst [(''a'', [10, 20, 30 :: int]), (''b'', [1, 2])]) \<and>
   getitem_list [10, 20, 30] 1 = Inr 20 \<and> getitem_list [1, 2] 1 = Inr 2 \<and>
   (\<exists>res. index_dict getitem_list [(''a'', [10, 20, 30]), (''b'', [1, 2])] 1
            = Inr \<lparr>data = [(''a'', [10, 20, 30]), (''b'', [1, 2])], returns = res\<rparr> \<and>
          map fst res = [''a'', ''b''] \<and> map_of res ''a'' = Some 20 \<and> map_of res ''b'' = Some 2)"
proof -
  let ?d = "[(''a'', [10, 20, 30 :: int]), (''b'', [1, 2])]"
  have dist: "distinct (map fst ?d)" by simp
  have ok: "\<forall>(k, v) \<in> set ?d. \<exists>r. getitem_list v (1 :: nat) = Inr r"
    by (simp add: getitem_list_def)
  from index_dict_selects_every_key [where getitem = getitem_list and idcs = 1, OF dist ok]
  obtain res where run: "index_dict getitem_list ?d 1 = Inr \<lparr>data = ?d, returns = res\<rparr>"
    and keys: "map fst res = map fst ?d"
    and look: "\<forall>(k, v) \<in> set ?d. \<exists>r. getitem_list v 1 = Inr r \<and> map_of res k = Some r"
    by blast
  from look have "map_of res ''a'' = Some 20" "map_of res ''b'' = Some 2"
    by (simp_all add: getitem_list_def)
  with dist run keys show ?thesis by (auto simp: getitem_list_def)
qed

subsection \<open>Loading pretrained weights\<close>

lemma load_pretrain_loop_run:
  assumes "distinct ks" and "set ks \<subseteq> fst ` set pre" and "distinct (map fst sd)"
  shows "load_pretrain_loop pre ks sd
           = Inr (map (\<lambda>(k, cur). (k, if k \<in> set ks then merged pre k cur else cur)) sd)"
  using assms
proof (induction ks arbitrary: sd)
  case Nil
  show ?case by simp
next
  case (Cons k ks)
  from Cons.prems have ks: "distinct ks" "set ks \<subseteq> fst ` set pre" and fresh: "k \<notin> set ks"
    by auto
  from Cons.prems(2) obtain pv where pv: "map_of pre k = Some pv"
    by (cases "map_of pre k") (auto simp: map_of_eq_None_iff)
  show ?case
  proof (cases "map_of sd k")
    case None
    then have "k \<notin> fst ` set sd" by (simp add: map_of_eq_None_iff)
    then have "map (\<lambda>(k', cur). (k', if k' \<in> set (k # ks) then merged pre k' cur else cur)) sd
             = map (\<lambda>(k', cur). (k', if k' \<in> set ks then merged pre k' cur else cur)) sd"
      by (force simp: map_eq_conv)
    with None Cons.IH [OF ks Cons.prems(3)] show ?thesis by simp
  next
    case (Some cur)
    show ?thesis
    proof (cases "pv_size pv = t_size cur")
      case False
      have "(case x of (k', c) \<Rightarrow> (k', if k' \<in> set (k # ks) then merged pre k' c else c))
          = (case x of (k', c) \<Rightarrow> (k', if k' \<in> set ks then merged pre k' c else c))"
        if x: "x \<in> set sd" for x
      proof -
        obtain k' c where kc: "x = (k', c)" by (cases x)
        with x Cons.prems(3) have "map_of sd k' = Some c" by simp
        with Some False pv kc show ?thesis by (auto simp: merged_def)
      qed
      then have "map (\<lambda>(k', c). (k', if k' \<in> set (k # ks) then merged pre k' c else c)) sd
          = map (\<lambda>(k', c). (k', if k' \<in> set ks then merged pre k' c else c)) sd"
        by (simp add: map_eq_conv)
      with Some pv False Cons.IH [OF ks Cons.prems(3)] show ?thesis by simp
    next
      case True
      define sd' where "sd' = AList.update k (pv_value pv) sd"
      have sd': "sd' = map (\<lambda>(k', c'). (k', if k' = k then pv_value pv else c')) sd"
        unfolding sd'_def using Cons.prems(3) Some by (rule update_present)
      have "map fst sd' = map fst sd"
        by (auto simp: sd' comp_def split: prod.splits)
      with Cons.prems(3) have dist': "distinct (map fst sd')" by simp
      have "(case (case x of (k', c') \<Rightarrow> (k', if k' = k then pv_value pv else c')) of
               (k', c) \<Rightarrow> (k', if k' \<in> set ks then merged pre k' c else c))
          = (case x of (k', c) \<Rightarrow> (k', if k' \<in> set (k # ks) then merged pre k' c else c))"
        if x: "x \<in> set sd" for x
      proof -
        obtain k' c where kc: "x = (k', c)" by (cases x)
        with x Cons.prems(3) have "map_of sd k' = Some c" by simp
        with Some True pv fresh kc show ?thesis by (auto simp: merged_def)
      qed
      then have "map (\<lambda>(k', c). (k', if k' \<in> set ks then merged pre k' c else c)) sd'
          = map (\<lambda>(k', c). (k', if k' \<in> set (k # ks) then merged pre k' c else c)) sd"
        unfolding sd' by (simp add: map_eq_conv)
      with Some pv True Cons.IH [OF ks dist'] show ?thesis by (simp add: sd'_def)
    qed
  qed
qed

lemma merged_size: "t_size (merged pre k cur) = t_size cur"
  by (cases "map_of pre k") (auto simp: merged_def elim: pv_size.elims)

lemma load_params_run:
  "\<forall>(k, cur) \<in> set xs. \<exists>v. map_of sd k = Some v \<and> t_size v = t_size cur \<Longrightarrow>
   load_params copy_into sd xs
     = Inr (map (\<lambda>(k, cur). (k, copy_into cur (the (map_of sd k)))) xs)"
proof (induction xs)
  case Nil
  show ?case by simp
next
  case (Cons x xs)
  obtain k cur where x: "x = (k, cur)" by (cases x)
  from Cons.prems x obtain v where "map_of sd k = Some v" "t_size v = t_size cur" by auto
  moreover from Cons.prems
  have "\<forall>(k, cur) \<in> set xs. \<exists>v. map_of sd k = Some v \<and> t_size v = t_size cur" by simp
  ultimately show ?case using Cons.IH x by simp
qed

text \<open>
  Claim C6. \<^verbatim>\<open>load_pretrain(net, pretrain_dict)\<close> copies \<open>pretrain_dict[key]\<close> (the
  tensor, or the tensor a non-tensor value wraps) into the model's parameter exactly for
  the keys present in both dictionaries whose shapes are equal; every other parameter of
  the model keeps its value, keys only in \<open>pretrain_dict\<close> are ignored (the model has the
  keys it had, in order), and nothing is raised for a shape mismatch or a missing key.
  Of torch's tensor copy it is assumed that copying a tensor into itself changes nothing.
\<close>

theorem load_pretrain_copies_matching:
  assumes dn: "distinct (map fst net)" and dp: "distinct (map fst pretrain_dict)"
      and self: "\<forall>t. copy_into t t = t"
  shows "load_pretrain copy_into net pretrain_dict
           = Inr (map (\<lambda>(key, cur).
                         (key, case map_of pretrain_dict key of
                                 None \<Rightarrow> cur
                               | Some (PTensor t) \<Rightarrow>
                                   if t_size t = t_size cur then copy_into cur t else cur
                               | Some (PWrapped t) \<Rightarrow>
                                   if t_size t = t_size cur then copy_into cur t else cur))
                      net)"
proof -
  define sd where "sd = map (\<lambda>(key, cur). (key, merged pretrain_dict key cur)) net"
  have "load_pretrain_loop pretrain_dict (map fst pretrain_dict) net
          = Inr (map (\<lambda>(k, cur). (k, if k \<in> set (map fst pretrain_dict)
                                       then merged pretrain_dict k cur else cur)) net)"
    using dp dn by (intro load_pretrain_loop_run) auto
  also have "map (\<lambda>(k, cur). (k, if k \<in> set (map fst pretrain_dict)
                                       then merged pretrain_dict k cur else cur)) net = sd"
    unfolding sd_def
    by (rule map_cong [OF refl]) (auto simp: merged_def map_of_eq_None_iff [symmetric])
  finally have loop: "load_pretrain_loop pretrain_dict (map fst pretrain_dict) net = Inr sd" .
  have keys: "map fst sd = map fst net"
    by (auto simp: sd_def comp_def split: prod.splits)
  have look: "map_of sd k = Some (merged pretrain_dict k cur)" if "(k, cur) \<in> set net" for k cur
  proof -
    from that have "(k, merged pretrain_dict k cur) \<in> set sd" by (force simp: sd_def)
    with dn keys show ?thesis by (simp add: map_of_is_SomeI)
  qed
  have ok: "\<forall>(k, cur) \<in> set net. \<exists>v. map_of sd k = Some v \<and> t_size v = t_size cur"
    using look by (auto simp: merged_size)
  have "Module_load_state_dict copy_into net sd
          = Inr (map (\<lambda>(k, cur). (k, copy_into cur (the (map_of sd k)))) net)"
    using load_params_run [OF ok, of copy_into] keys by (simp add: Module_load_state_dict_def)
  also have "map (\<lambda>(k, cur). (k, copy_into cur (the (map_of sd k)))) net
           = map (\<lambda>(key, cur).
                         (key, case map_of pretrain_dict key of
                                 None \<Rightarrow> cur
                               | Some (PTensor t) \<Rightarrow>
                                   if t_size t = t_size cur then copy_into cur t else cur
                               | Some (PWrapped t) \<Rightarrow>
                                   if t_size t = t_size cur then copy_into cur t else cur))
                      net"
  proof (rule map_cong [OF refl])
    fix x assume x: "x \<in> set net"
    obtain k cur where kc: "x = (k, cur)" by (cases x)
    from look x kc have "the (map_of sd k) = merged pretrain_dict k cur" by simp
    then show "(case x of (k, cur) \<Rightarrow> (k, copy_into cur (the (map_of sd k))))
             = (case x of (key, cur) \<Rightarrow>
                  (key, case map_of pretrain_dict key of
                          None \<Rightarrow> cur
                        | Some (PTensor t) \<Rightarrow>
                            if t_size t = t_size cur then copy_into cur t else cur
                        | Some (PWrapped t) \<Rightarrow>
                            if t_size t = t_size cur then copy_into cur t else cur))"
      using self by (simp add: kc merged_def split: option.splits pvalue.splits)
  qed
  finally show ?thesis using loop by (simp add: load_pretrain_def)
qed

theorem load_pretrain_copies_matching_witness:
  "distinct (map fst example_net) \<and> distinct (map fst example_pretrain) \<and>
   load_pretrain example_copy example_net example_pretrain
     = Inr [(''w'', \<lparr>t_size = [2], t_elems = I64 [5, - 6]\<rparr>),
            (''b'', \<lparr>t_size = [1], t_elems = F32 [Fin 0]\<rparr>),
            (''c'', \<lparr>t_size = [2], t_elems = F32 [Fin 5, NaN]\<rparr>)]"
proof -
  have dn: "distinct (map fst example_net)" and dp: "distinct (map fst example_pretrain)"
    by (simp_all add: example_net_def example_pretrain_def)
  have self: "\<forall>t. example_copy t t = t"
  proof
    fix t show "example_copy t t = t"
      by (cases "t_elems t") (simp_all add: example_copy_def)
  qed
  from load_pretrain_copies_matching [where copy_into = example_copy, OF dn dp self]
  have "load_pretrain example_copy example_net example_pretrain
     = Inr [(''w'', \<lparr>t_size = [2], t_elems = I64 [5, - 6]\<rparr>),
            (''b'', \<lparr>t_size = [1], t_elems = F32 [Fin 0]\<rparr>),
            (''c'', \<lparr>t_size = [2], t_elems = F32 [Fin 5, NaN]\<rparr>)]"
    by (simp add: example_net_def example_pretrain_def example_copy_def)
  with dn dp show ?thesis by (intro conjI)
qed

subsection \<open>Widening 16-bit tensors in nested containers\<close>

lemma widen_idem: "widen (widen l) = widen l"
  by (cases l) (auto split: elems.splits)

lemma size_map_pyval: "size (map_pyval f u) = size u"
proof -
  have "size (map_pyval f u) = (size_pyval (\<lambda>_. 0) \<circ> map_pyval f) u"
    by (simp add: size_pyval_overloaded_def)
  also have "\<dots> = size u"
    by (simp only: pyval.size_gen_o_map) (simp add: size_pyval_overloaded_def comp_def)
  finally show ?thesis .
qed

lemma pc_map_eq: "pc u u' \<Longrightarrow> (\<And>l. f (widen l) = f l) \<Longrightarrow> map_pyval f u' = map_pyval f u"
proof -
  assume p: "pc u u'" and f: "\<And>l. f (widen l) = f l"
  have "rel_pyval (\<lambda>x y. f x = f y) u u'"
    using p unfolding pc_def
    by (rule pyval.rel_mono_strong) (auto simp: pc_leaf_def f)
  then have "rel_pyval (=) (map_pyval f u) (map_pyval f u')"
    by (simp add: pyval.rel_map)
  then show ?thesis by (simp add: pyval.rel_eq)
qed

lemma pc_size: "pc u u' \<Longrightarrow> size u' = size u"
  using pc_map_eq [of u u' "\<lambda>_. ()"] size_map_pyval [of "\<lambda>_. ()" u] size_map_pyval [of "\<lambda>_. ()" u']
  by simp

lemma pc_spec_eq: "pc u u' \<Longrightarrow> to_long_spec u' = to_long_spec u"
  unfolding to_long_spec_def by (rule pc_map_eq) (simp_all add: widen_idem)

lemma pc_refl: "pc u u"
  unfolding pc_def by (rule pyval.rel_refl) (simp add: pc_leaf_def)

lemma pc_trans: "pc u v \<Longrightarrow> pc v w \<Longrightarrow> pc u w"
proof -
  assume "pc u v" "pc v w"
  then have "(rel_pyval pc_leaf OO rel_pyval pc_leaf) u w"
    unfolding pc_def by blast
  then have "rel_pyval (pc_leaf OO pc_leaf) u w"
    by (simp add: pyval.rel_compp)
  then show "pc u w"
    unfolding pc_def
    by (rule pyval.rel_mono_strong) (auto simp: pc_leaf_def widen_idem)
qed

lemma pc_of_spec: "pc (to_long_spec w) u' \<Longrightarrow> u' = to_long_spec w"
proof -
  assume "pc (to_long_spec w) u'"
  then have "rel_pyval (\<lambda>x y. pc_leaf (widen x) y) w u'"
    by (simp add: pc_def to_long_spec_def pyval.rel_map)
  then have "rel_pyval (\<lambda>x y. widen x = y) w u'"
    by (rule pyval.rel_mono_strong) (auto simp: pc_leaf_def widen_idem)
  then have "rel_pyval (=) (map_pyval widen w) u'"
    by (simp add: pyval.rel_map)
  then show ?thesis by (simp add: pyval.rel_eq to_long_spec_def)
qed

lemma pc_to_spec: "pc u u' \<Longrightarrow> pc u' (to_long_spec u)"
proof -
  assume "pc u u'"
  then have "rel_pyval (\<lambda>x y. pc_leaf y (widen x)) u u'"
    unfolding pc_def
    by (rule pyval.rel_mono_strong) (auto simp: pc_leaf_def)
  then have "rel_pyval (\<lambda>y x. pc_leaf y (widen x))\<inverse>\<inverse> u u'"
    by (simp add: conversep.simps [abs_def])
  then have "rel_pyval (\<lambda>y x. pc_leaf y (widen x)) u' u"
    by (simp only: pyval.rel_flip)
  then show ?thesis
    by (simp add: pc_def to_long_spec_def pyval.rel_map)
qed

lemma spec_idem: "to_long_spec (to_long_spec v) = to_long_spec v"
  by (simp add: to_long_spec_def pyval.map_comp comp_def widen_idem)

lemma child_seq: "v \<in> set vs \<Longrightarrow> size v < size (VSeq vs)"
  using size_list_estimation' [of v vs "size v" size] by simp

lemma child_dict: "v \<in> set (map snd kvs) \<Longrightarrow> size v < size (VDict kvs)"
proof -
  assume "v \<in> set (map snd kvs)"
  then obtain k where kv: "(k, v) \<in> set kvs" by auto
  have "size v \<le> size_prod (\<lambda>x. 0) size (k, v)" by simp
  with kv have "size v \<le> size_list (size_prod (\<lambda>x. 0) size) kvs"
    by (rule size_list_estimation')
  then show ?thesis by simp
qed

lemma lookup_Some_iff: "lookup h a = Some x \<longleftrightarrow> a < length h \<and> h ! a = x"
  by (auto simp: lookup_def)

lemma lookup_append: "lookup h a = Some x \<Longrightarrow> lookup (h @ xs) a = Some x"
  by (auto simp: lookup_def nth_append)

lemma lookup_alloc: "lookup (h @ [x]) (length h) = Some x"
  by (simp add: lookup_def)

lemma lookup_update:
  "lookup (h[d := x]) a = (if a = d \<and> d < length h then Some x else lookup h a)"
  by (auto simp: lookup_def)

lemma repr_mono:
  assumes sub: "\<And>a x. lookup h a = Some x \<Longrightarrow> lookup h' a = Some x"
  shows "repr h a v \<Longrightarrow> repr h' a v"
proof (induction v arbitrary: a rule: measure_induct_rule [of size])
  case (less v)
  show ?case
  proof (cases v)
    case (VDict kvs)
    with less.prems obtain aks where l: "lookup h a = Some (ODict aks)"
      and d: "distinct (map fst aks)" and k: "map fst aks = map fst kvs"
      and r: "list_all2 (repr h) (map snd aks) (map snd kvs)"
      by (auto split: option.splits pyobj.splits)
    from r have "list_all2 (repr h') (map snd aks) (map snd kvs)"
    proof (rule list.rel_mono_strong)
      fix x u assume u: "u \<in> set (map snd kvs)" and r: "repr h x u"
      from child_dict [OF u] VDict have "size u < size v" by simp
      from less.IH [OF this r] show "repr h' x u" .
    qed
    with sub [OF l] d k VDict show ?thesis by simp
  next
    case (VSeq vs)
    with less.prems obtain xs where l: "lookup h a = Some (OList xs) \<or> lookup h a = Some (OTuple xs)"
      and r: "list_all2 (repr h) xs vs"
      by (auto split: option.splits pyobj.splits)
    from r have "list_all2 (repr h') xs vs"
    proof (rule list.rel_mono_strong)
      fix x u assume u: "u \<in> set vs" and r: "repr h x u"
      from child_seq [OF u] VSeq have "size u < size v" by simp
      from less.IH [OF this r] show "repr h' x u" .
    qed
    with l sub VSeq show ?thesis by auto
  next
    case (VLeaf l)
    with less.prems sub show ?thesis by simp
  qed
qed

lemma repr_append: "repr h a v \<Longrightarrow> repr (h @ xs) a v"
  by (rule repr_mono [of h]) (rule lookup_append)

lemma list_all2_same_left:
  assumes "list_all2 P xs ys" and "list_all2 P xs zs"
      and "\<And>x y z. y \<in> set ys \<Longrightarrow> P x y \<Longrightarrow> P x z \<Longrightarrow> y = z"
  shows "ys = zs"
  using assms
proof (induction xs ys arbitrary: zs rule: list_all2_induct)
  case Nil
  then show ?case by simp
next
  case (Cons x xs y ys)
  from Cons.prems(1) obtain z zs' where zs: "zs = z # zs'" and pz: "P x z"
    and rest: "list_all2 P xs zs'"
    by (cases zs) auto
  from Cons.prems(2) [of y x z] Cons.hyps(1) pz have "y = z" by simp
  moreover from Cons.IH [OF rest] Cons.prems(2) have "ys = zs'" by simp
  ultimately show ?case using zs by simp
qed

lemma repr_det: "repr h a u \<Longrightarrow> repr h a u' \<Longrightarrow> u = u'"
proof (induction u arbitrary: a u' rule: measure_induct_rule [of size])
  case (less u)
  show ?case
  proof (cases u)
    case (VDict kvs)
    with less.prems(1) obtain aks where l: "lookup h a = Some (ODict aks)"
      and k: "map fst aks = map fst kvs"
      and r: "list_all2 (repr h) (map snd aks) (map snd kvs)"
      by (auto split: option.splits pyobj.splits)
    from less.prems(2) l obtain kvs' where u': "u' = VDict kvs'"
      by (cases u') (auto split: option.splits pyobj.splits)
    with less.prems(2) l have k': "map fst aks = map fst kvs'"
      and r': "list_all2 (repr h) (map snd aks) (map snd kvs')"
      by auto
    have "map snd kvs = map snd kvs'"
      using r r'
    proof (rule list_all2_same_left)
      fix x y z assume y: "y \<in> set (map snd kvs)" and ry: "repr h x y" and rz: "repr h x z"
      from child_dict [OF y] VDict have "size y < size u" by simp
      from less.IH [OF this ry rz] show "y = z" .
    qed
    with k k' have "kvs = kvs'" by (simp add: pair_list_eqI)
    with VDict u' show ?thesis by simp
  next
    case (VSeq vs)
    with less.prems(1) obtain xs where l: "lookup h a = Some (OList xs) \<or> lookup h a = Some (OTuple xs)"
      and r: "list_all2 (repr h) xs vs"
      by (auto split: option.splits pyobj.splits)
    from less.prems(2) l obtain vs' where u': "u' = VSeq vs'"
      by (cases u') (auto split: option.splits pyobj.splits)
    with less.prems(2) l have r': "list_all2 (repr h) xs vs'" by auto
    have "vs = vs'"
      using r r'
    proof (rule list_all2_same_left)
      fix x y z assume y: "y \<in> set vs" and ry: "repr h x y" and rz: "repr h x z"
      from child_seq [OF y] VSeq have "size y < size u" by simp
      from less.IH [OF this ry rz] show "y = z" .
    qed
    with VSeq u' show ?thesis by simp
  next
    case (VLeaf l)
    with less.prems show ?thesis
      by (cases u') (auto split: option.splits pyobj.splits)
  qed
qed

lemma list_all2_choice:
  "list_all2 (\<lambda>x v. \<exists>v'. P x v' \<and> Q v v') xs vs \<Longrightarrow>
   \<exists>vs'. list_all2 P xs vs' \<and> list_all2 Q vs vs'"
proof (induction xs vs rule: list_all2_induct)
  case Nil
  show ?case by simp
next
  case (Cons x xs v vs)
  from Cons.hyps(1) obtain v' where "P x v'" "Q v v'" by blast
  moreover from Cons.IH obtain vs' where "list_all2 P xs vs'" "list_all2 Q vs vs'" by blast
  ultimately have "list_all2 P (x # xs) (v' # vs') \<and> list_all2 Q (v # vs) (v' # vs')" by simp
  then show ?case by blast
qed

lemma evolves_refl: "evolves h h"
  using pc_refl by (auto simp: evolves_def)

lemma evolves_trans: "evolves h1 h2 \<Longrightarrow> evolves h2 h3 \<Longrightarrow> evolves h1 h3"
  unfolding evolves_def by (meson pc_trans)

lemma evolves_append: "evolves h (h @ xs)"
  unfolding evolves_def using pc_refl repr_append by blast

lemma evolves_list:
  assumes "evolves h h'" and "list_all2 (repr h) xs vs"
  shows "\<exists>vs'. list_all2 (repr h') xs vs' \<and> list_all2 pc vs vs'"
proof -
  from assms(2) have "list_all2 (\<lambda>x v. \<exists>v'. repr h' x v' \<and> pc v v') xs vs"
    by (rule list.rel_mono_strong) (use assms(1) in \<open>auto simp: evolves_def\<close>)
  then show ?thesis by (rule list_all2_choice)
qed

lemma evolves_spec:
  assumes "evolves h h'" and "repr h a (to_long_spec w)"
  shows "repr h' a (to_long_spec w)"
proof -
  from assms obtain u' where r: "repr h' a u'" and p: "pc (to_long_spec w) u'"
    by (auto simp: evolves_def)
  from pc_of_spec [OF p] r show ?thesis by simp
qed

lemma rel_prod_lists:
  "list_all2 (rel_prod (=) R) xs ys \<longleftrightarrow>
   map fst xs = map fst ys \<and> list_all2 R (map snd xs) (map snd ys)"
proof (induction xs arbitrary: ys)
  case Nil
  show ?case by auto
next
  case (Cons x xs)
  show ?case
  proof (cases ys)
    case Nil
    then show ?thesis by simp
  next
    case (Cons y ys')
    with Cons.IH [of ys'] show ?thesis
      by (cases x; cases y) auto
  qed
qed

lemma pc_VDict:
  "pc (VDict kvs) u' \<longleftrightarrow>
   (\<exists>kvs'. u' = VDict kvs' \<and> map fst kvs = map fst kvs' \<and>
           list_all2 pc (map snd kvs) (map snd kvs'))"
  unfolding pc_def [abs_def] by (cases u') (simp_all add: rel_prod_lists)

lemma pc_VSeq: "pc (VSeq vs) u' \<longleftrightarrow> (\<exists>vs'. u' = VSeq vs' \<and> list_all2 pc vs vs')"
  unfolding pc_def [abs_def] by (cases u') simp_all

lemma repr_VDict_iff:
  "repr h a (VDict kvs) \<longleftrightarrow>
   (\<exists>aks. lookup h a = Some (ODict aks) \<and> distinct (map fst aks) \<and>
          map fst aks = map fst kvs \<and> list_all2 (repr h) (map snd aks) (map snd kvs))"
  by (auto split: option.splits pyobj.splits)

lemma repr_VSeq_iff:
  "repr h a (VSeq vs) \<longleftrightarrow>
   (\<exists>xs. (lookup h a = Some (OList xs) \<or> lookup h a = Some (OTuple xs)) \<and>
         list_all2 (repr h) xs vs)"
  by (auto split: option.splits pyobj.splits)

lemma evolves_slot:
  assumes d: "lookup h d = Some (ODict kvs)" and dist: "distinct (map fst kvs)"
      and key: "map_of kvs key = Some x"
      and y: "\<And>u. repr h x u \<Longrightarrow> \<exists>w. repr h y w \<and> pc u w"
  shows "evolves h (h[d := ODict (AList.update key y kvs)])"
proof -
  define kvs' where "kvs' = map (\<lambda>(k', c'). (k', if k' = key then y else c')) kvs"
  define h' where "h' = h[d := ODict kvs']"
  have upd: "AList.update key y kvs = kvs'"
    unfolding kvs'_def using dist key by (rule update_present)
  have dlt: "d < length h" using d by (simp add: lookup_Some_iff)
  have look_d: "lookup h' d = Some (ODict kvs')"
    using dlt by (simp add: h'_def lookup_update)
  have look_other: "lookup h' a = lookup h a" if "a \<noteq> d" for a
    using that by (simp add: h'_def lookup_update)
  have keys': "map fst kvs' = map fst kvs"
    by (auto simp: kvs'_def comp_def split: prod.splits)
  have step: "\<exists>u'. repr h' a u' \<and> pc u u'" if "repr h a u" for a u
    using that
  proof (induction u arbitrary: a rule: measure_induct_rule [of size])
    case (less u)
    show ?case
    proof (cases u)
      case (VLeaf l)
      with less.prems d have "a \<noteq> d" by auto
      with less.prems VLeaf have "repr h' a u" by (simp add: look_other)
      with pc_refl show ?thesis by blast
    next
      case (VSeq vs)
      from less.prems [unfolded VSeq repr_VSeq_iff] obtain xs
        where l: "lookup h a = Some (OList xs) \<or> lookup h a = Some (OTuple xs)"
          and r: "list_all2 (repr h) xs vs"
        by blast
      from l d have "a \<noteq> d" by auto
      with l have l': "lookup h' a = Some (OList xs) \<or> lookup h' a = Some (OTuple xs)"
        by (simp add: look_other)
      from r have "list_all2 (\<lambda>x v. \<exists>v'. repr h' x v' \<and> pc v v') xs vs"
      proof (rule list.rel_mono_strong)
        fix x v assume v: "v \<in> set vs" and rv: "repr h x v"
        from child_seq [OF v] VSeq have "size v < size u" by simp
        from less.IH [OF this rv] show "\<exists>v'. repr h' x v' \<and> pc v v'" .
      qed
      then obtain vs' where rs: "list_all2 (repr h') xs vs'" and ps: "list_all2 pc vs vs'"
        using list_all2_choice by blast
      have "repr h' a (VSeq vs')"
        unfolding repr_VSeq_iff using l' rs by blast
      moreover have "pc u (VSeq vs')"
        unfolding VSeq pc_VSeq using ps by simp
      ultimately show ?thesis by blast
    next
      case (VDict kvv)
      from less.prems [unfolded VDict repr_VDict_iff] obtain aks
        where l: "lookup h a = Some (ODict aks)"
        and da: "distinct (map fst aks)" and ka: "map fst aks = map fst kvv"
        and r: "list_all2 (repr h) (map snd aks) (map snd kvv)"
        by blast
      define aks' where "aks' = (if a = d then kvs' else aks)"
      have l': "lookup h' a = Some (ODict aks')"
        using l look_d look_other by (simp add: aks'_def)
      have same: "a = d \<Longrightarrow> aks = kvs" using l d by simp
      have ka': "map fst aks' = map fst kvv"
        using ka keys' same by (auto simp: aks'_def)
      have len: "length aks' = length aks"
        using same by (auto simp: aks'_def kvs'_def)
      have "list_all2 (\<lambda>x v. \<exists>v'. repr h' x v' \<and> pc v v') (map snd aks') (map snd kvv)"
        unfolding list_all2_conv_all_nth
      proof (intro conjI allI impI)
        from ka' show "length (map snd aks') = length (map snd kvv)"
          using length_map by metis
      next
        fix i assume "i < length (map snd aks')"
        then have i': "i < length aks'" by simp
        with len have i: "i < length aks" by simp
        from ka have lenv: "length aks = length kvv" using length_map by metis
        with i have iv: "i < length kvv" by simp
        let ?v = "map snd kvv ! i"
        have rv: "repr h (map snd aks ! i) ?v"
          by (rule list_all2_nthD [OF r]) (simp add: i)
        from iv have "?v \<in> set (map snd kvv)" by (intro nth_mem) simp
        from child_dict [OF this] VDict have sz: "size ?v < size u" by simp
        show "\<exists>v'. repr h' (map snd aks' ! i) v' \<and> pc ?v v'"
        proof (cases "a = d \<and> fst (kvs ! i) = key")
          case False
          then have "map snd aks' ! i = map snd aks ! i"
            using i i' same by (auto simp: aks'_def kvs'_def split: prod.splits)
          with less.IH [OF sz rv] show ?thesis by simp
        next
          case True
          with same have aks: "aks = kvs" by simp
          from True i aks have "kvs ! i = (key, snd (kvs ! i))" by (metis prod.collapse)
          with i aks have "(key, snd (kvs ! i)) \<in> set kvs" by (metis nth_mem)
          with dist key have "snd (kvs ! i) = x" by simp
          with rv aks i have "repr h x ?v" by simp
          from y [OF this] obtain w where rw: "repr h y w" and pw: "pc ?v w" by blast
          from pc_size [OF pw] sz have "size w < size u" by simp
          from less.IH [OF this rw] obtain w' where rw': "repr h' y w'" and pw': "pc w w'"
            by blast
          from True i aks have "map snd aks' ! i = y"
            by (auto simp: aks'_def kvs'_def split: prod.splits)
          with rw' pc_trans [OF pw pw'] show ?thesis by auto
        qed
      qed
      then obtain vs' where rs: "list_all2 (repr h') (map snd aks') vs'"
        and ps: "list_all2 pc (map snd kvv) vs'"
        using list_all2_choice by blast
      define kvv' where "kvv' = zip (map fst kvv) vs'"
      from ps have "length vs' = length kvv" by (auto dest: list_all2_lengthD)
      then have fst': "map fst kvv' = map fst kvv" and snd': "map snd kvv' = vs'"
        by (simp_all add: kvv'_def)
      have da': "distinct (map fst aks')"
        using ka' ka da by simp
      have "repr h' a (VDict kvv')"
        unfolding repr_VDict_iff using l' da' ka' rs fst' snd' by simp
      moreover have "pc u (VDict kvv')"
        unfolding VDict pc_VDict using ps fst' snd' by simp
      ultimately show ?thesis by blast
    qed
  qed
  show ?thesis
    unfolding upd h'_def [symmetric] evolves_def using step by blast
qed

lemma evolvesD: "evolves h h' \<Longrightarrow> repr h a u \<Longrightarrow> \<exists>u'. repr h' a u' \<and> pc u u'"
  unfolding evolves_def by blast

lemma list_all2_in_right:
  "list_all2 P xs ys \<Longrightarrow> y \<in> set ys \<Longrightarrow> \<exists>x \<in> set xs. P x y"
  by (induction xs ys rule: list_all2_induct) auto

lemma list_all2_in_left:
  "list_all2 P xs ys \<Longrightarrow> x \<in> set xs \<Longrightarrow> \<exists>y \<in> set ys. P x y"
  by (induction xs ys rule: list_all2_induct) auto

lemma pc_list_spec: "list_all2 pc vs vs' \<Longrightarrow> map to_long_spec vs' = map to_long_spec vs"
  by (induction vs vs' rule: list_all2_induct) (simp_all add: pc_spec_eq)

lemma spec_VSeq: "to_long_spec (VSeq vs) = VSeq (map to_long_spec vs)"
  by (simp add: to_long_spec_def [abs_def])

lemma spec_VDict:
  "to_long_spec (VDict kvs) = VDict (map (map_prod id to_long_spec) kvs)"
  by (simp add: to_long_spec_def [abs_def])

lemma spec_VLeaf: "to_long_spec (VLeaf l) = VLeaf (widen l)"
  by (simp add: to_long_spec_def)

lemma repr_VDict_pairs:
  "repr h a (VDict kvs) \<longleftrightarrow>
   (\<exists>aks. lookup h a = Some (ODict aks) \<and> distinct (map fst aks) \<and>
          list_all2 (rel_prod (=) (repr h)) aks kvs)"
  unfolding repr_VDict_iff rel_prod_lists by blast

lemma pc_VDict_pairs:
  "pc (VDict kvs) u' \<longleftrightarrow> (\<exists>kvs'. u' = VDict kvs' \<and> list_all2 (rel_prod (=) pc) kvs kvs')"
  unfolding pc_VDict rel_prod_lists by blast

lemma elems_run:
  assumes IH: "\<And>u h a. size u < N \<Longrightarrow> repr h a u \<Longrightarrow>
                 \<exists>h' r. to_long n h a = Some (h', r) \<and> repr h' r (to_long_spec u) \<and> evolves h h'"
  shows "list_all2 (repr h) xs vs \<Longrightarrow> \<forall>v \<in> set vs. size v < N \<Longrightarrow>
         \<exists>h' ys. to_long_elems n h xs = Some (h', ys) \<and>
                 list_all2 (repr h') ys (map to_long_spec vs) \<and> evolves h h'"
proof (induction xs arbitrary: h vs)
  case Nil
  then show ?case by (simp add: evolves_refl)
next
  case (Cons x xs)
  from Cons.prems(1) obtain v vs0 where vs: "vs = v # vs0" and rv: "repr h x v"
    and rest: "list_all2 (repr h) xs vs0"
    by (cases vs) auto
  from Cons.prems(2) vs have "size v < N" by simp
  from IH [OF this rv] obtain h1 y where run1: "to_long n h x = Some (h1, y)"
    and ry: "repr h1 y (to_long_spec v)" and ev1: "evolves h h1"
    by blast
  from evolves_list [OF ev1 rest] obtain vs1 where rest1: "list_all2 (repr h1) xs vs1"
    and pcs: "list_all2 pc vs0 vs1"
    by blast
  have "\<forall>v \<in> set vs1. size v < N"
  proof
    fix v1 assume "v1 \<in> set vs1"
    from list_all2_in_right [OF pcs this] obtain v0 where "v0 \<in> set vs0" and "pc v0 v1"
      by blast
    with Cons.prems(2) vs pc_size [of v0 v1] show "size v1 < N" by simp
  qed
  from Cons.IH [OF rest1 this] obtain h2 ys where run2: "to_long_elems n h1 xs = Some (h2, ys)"
    and rys: "list_all2 (repr h2) ys (map to_long_spec vs1)" and ev2: "evolves h1 h2"
    by blast
  from evolves_spec [OF ev2 ry] have ry2: "repr h2 y (to_long_spec v)" .
  from rys pc_list_spec [OF pcs] have "list_all2 (repr h2) ys (map to_long_spec vs0)" by simp
  with ry2 vs have "list_all2 (repr h2) (y # ys) (map to_long_spec vs)" by simp
  moreover from run1 run2 have "to_long_elems n h (x # xs) = Some (h2, y # ys)" by simp
  moreover from ev1 ev2 have "evolves h h2" by (rule evolves_trans)
  ultimately show ?case by blast
qed

lemma rel_prod_keys: "list_all2 (rel_prod (=) R) xs ys \<Longrightarrow> map fst xs = map fst ys"
  by (simp add: rel_prod_lists)

lemma items_run:
  assumes IH: "\<And>u h a. size u < N \<Longrightarrow> repr h a u \<Longrightarrow>
                 \<exists>h' r. to_long n h a = Some (h', r) \<and> repr h' r (to_long_spec u) \<and> evolves h h'"
  shows "repr h d (VDict kvv) \<Longrightarrow> distinct ks \<Longrightarrow> set ks \<subseteq> fst ` set kvv \<Longrightarrow>
         \<forall>(k, v) \<in> set kvv. size v < N \<Longrightarrow>
         \<forall>(k, v) \<in> set kvv. k \<notin> set ks \<longrightarrow> to_long_spec v = v \<Longrightarrow>
         \<exists>h'. to_long_items n h d ks = Some h' \<and>
              repr h' d (to_long_spec (VDict kvv)) \<and> evolves h h'"
proof (induction ks arbitrary: h kvv)
  case Nil
  from Nil.prems(5) have "map (map_prod id to_long_spec) kvv = kvv"
    by (intro map_idI) auto
  with Nil.prems(1) show ?case by (simp add: spec_VDict evolves_refl)
next
  case (Cons key ks)
  from Cons.prems(1) [unfolded repr_VDict_pairs] obtain kvs where ld: "lookup h d = Some (ODict kvs)"
    and dk: "distinct (map fst kvs)" and rel: "list_all2 (rel_prod (=) (repr h)) kvs kvv"
    by blast
  from rel have keys: "map fst kvs = map fst kvv" by (rule rel_prod_keys)
  with dk have dkv: "distinct (map fst kvv)" by simp
  from Cons.prems(3) obtain v where kv: "(key, v) \<in> set kvv" by auto
  from list_all2_in_right [OF rel kv] obtain x where kx: "(key, x) \<in> set kvs"
    and rx: "repr h x v"
    by (auto simp: rel_prod_conv split: prod.splits)
  from dk kx have mx: "map_of kvs key = Some x" by simp
  from Cons.prems(4) kv have "size v < N" by auto
  from IH [OF this rx] obtain h1 y where run1: "to_long n h x = Some (h1, y)"
    and ry: "repr h1 y (to_long_spec v)" and ev1: "evolves h h1"
    by blast
  \<comment> \<open>the dictionary after the recursive call\<close>
  from evolvesD [OF ev1 Cons.prems(1)] obtain u1 where r1: "repr h1 d u1"
    and p1: "pc (VDict kvv) u1"
    by blast
  from p1 [unfolded pc_VDict_pairs] obtain kvv1 where u1: "u1 = VDict kvv1"
    and pc1: "list_all2 (rel_prod (=) pc) kvv kvv1"
    by blast
  from r1 [unfolded u1 repr_VDict_pairs] obtain kvs1 where ld1: "lookup h1 d = Some (ODict kvs1)"
    and dk1: "distinct (map fst kvs1)" and rel1: "list_all2 (rel_prod (=) (repr h1)) kvs1 kvv1"
    by blast
  from list_all2_in_left [OF pc1 kv] obtain v1 where kv1: "(key, v1) \<in> set kvv1"
    and pv1: "pc v v1"
    by (auto simp: rel_prod_conv split: prod.splits)
  from list_all2_in_right [OF rel1 kv1] obtain x1 where kx1: "(key, x1) \<in> set kvs1"
    and rx1: "repr h1 x1 v1"
    by (auto simp: rel_prod_conv split: prod.splits)
  from dk1 kx1 have mx1: "map_of kvs1 key = Some x1" by simp
  define h2 where "h2 = h1[d := ODict (AList.update key y kvs1)]"
  have ev2: "evolves h1 h2"
    unfolding h2_def using ld1 dk1 mx1
  proof (rule evolves_slot)
    fix u assume "repr h1 x1 u"
    with rx1 have "u = v1" by (simp add: repr_det)
    with ry pc_to_spec [OF pv1] show "\<exists>w. repr h1 y w \<and> pc u w" by blast
  qed
  from run1 ld mx ld1 have unfold: "to_long_items n h d (key # ks) = to_long_items n h2 d ks"
    by (simp add: h2_def)
  \<comment> \<open>the dictionary after the assignment\<close>
  from evolvesD [OF ev2 r1] u1 obtain u2 where r2: "repr h2 d u2" and p2: "pc (VDict kvv1) u2"
    by blast
  from p2 [unfolded pc_VDict_pairs] obtain kvv2 where u2: "u2 = VDict kvv2"
    and pc2: "list_all2 (rel_prod (=) pc) kvv1 kvv2"
    by blast
  from r2 [unfolded u2 repr_VDict_pairs] obtain kvs2 where ld2: "lookup h2 d = Some (ODict kvs2)"
    and rel2: "list_all2 (rel_prod (=) (repr h2)) kvs2 kvv2"
    by blast
  from ld1 have "d < length h1" by (simp add: lookup_Some_iff)
  with ld2 have kvs2: "kvs2 = AList.update key y kvs1"
    by (simp add: h2_def lookup_update)
  from evolves_spec [OF ev2 ry] have ry2: "repr h2 y (to_long_spec v)" .
  have pc02: "pc (VDict kvv) (VDict kvv2)"
    using p1 p2 u1 u2 pc_trans by blast
  from pc02 [unfolded pc_VDict_pairs] have rel02: "list_all2 (rel_prod (=) pc) kvv kvv2"
    by simp
  have keys2: "map fst kvv2 = map fst kvv"
    using rel02 by (simp add: rel_prod_keys)
  have sizes2: "\<forall>(k, v) \<in> set kvv2. size v < N"
  proof (clarify)
    fix k v2 assume "(k, v2) \<in> set kvv2"
    from list_all2_in_right [OF rel02 this] obtain v0 where "(k, v0) \<in> set kvv" and "pc v0 v2"
      by (auto simp: rel_prod_conv split: prod.splits)
    with Cons.prems(4) pc_size [of v0 v2] show "size v2 < N" by auto
  qed
  have done2: "\<forall>(k, v) \<in> set kvv2. k \<notin> set ks \<longrightarrow> to_long_spec v = v"
  proof (clarify)
    fix k v2 assume in2: "(k, v2) \<in> set kvv2" and notin: "k \<notin> set ks"
    show "to_long_spec v2 = v2"
    proof (cases "k = key")
      case True
      from list_all2_in_right [OF rel2 in2] True obtain a where "(key, a) \<in> set kvs2"
        and ra: "repr h2 a v2"
        by (auto simp: rel_prod_conv split: prod.splits)
      then have "map_of kvs2 key = Some a"
        using dk1 by (simp add: kvs2 distinct_update)
      then have "a = y" by (simp add: kvs2 update_conv')
      with ra ry2 have "v2 = to_long_spec v" by (simp add: repr_det)
      then show ?thesis by (simp add: spec_idem)
    next
      case False
      from list_all2_in_right [OF rel02 in2] obtain v0 where in0: "(k, v0) \<in> set kvv"
        and p: "pc v0 v2"
        by (auto simp: rel_prod_conv split: prod.splits)
      from Cons.prems(5) in0 False notin have fixed: "to_long_spec v0 = v0" by auto
      with p have "pc (to_long_spec v0) v2" by simp
      from pc_of_spec [OF this] fixed show ?thesis by (simp add: spec_idem)
    qed
  qed
  from Cons.prems(2) have dks: "distinct ks" by simp
  from Cons.prems(3) keys2 have sub: "set ks \<subseteq> fst ` set kvv2"
    by (metis (no_types, lifting) list.set_map set_subset_Cons subset_trans)
  from Cons.IH [OF _ dks sub sizes2 done2] r2 u2
  obtain h' where run: "to_long_items n h2 d ks = Some h'"
    and rfin: "repr h' d (to_long_spec (VDict kvv2))" and ev3: "evolves h2 h'"
    by blast
  from pc_spec_eq [OF pc02] rfin have "repr h' d (to_long_spec (VDict kvv))" by simp
  moreover from ev1 ev2 ev3 have "evolves h h'" by (blast intro: evolves_trans)
  ultimately show ?case using unfold run by auto
qed

lemma to_long_refines:
  "repr h a v \<Longrightarrow> size v < n \<Longrightarrow>
   \<exists>h' r. to_long n h a = Some (h', r) \<and> repr h' r (to_long_spec v) \<and> evolves h h'"
proof (induction v arbitrary: h a n rule: measure_induct_rule [of size])
  case (less v)
  from less.prems(2) obtain m where n: "n = Suc m" by (cases n) auto
  have IH: "\<exists>h' r. to_long m h a = Some (h', r) \<and> repr h' r (to_long_spec u) \<and> evolves h h'"
    if "size u < size v" "repr h a u" for u h a
    using less.IH [OF that(1) that(2), of m] that(1) less.prems(2) n by simp
  show ?case
  proof (cases v)
    case (VLeaf l)
    with less.prems(1) have la: "lookup h a = Some (OLeaf l)" by simp
    show ?thesis
    proof (cases "\<exists>t ws. l = Tensor t \<and> t_elems t = I16 ws")
      case True
      then obtain t ws where l: "l = Tensor t" and e: "t_elems t = I16 ws" by blast
      have run: "to_long n h a = Some (h @ [OLeaf (widen l)], length h)"
        using la l e by (simp add: n alloc_def)
      have "repr (h @ [OLeaf (widen l)]) (length h) (to_long_spec v)"
        by (simp add: VLeaf spec_VLeaf lookup_alloc)
      with run evolves_append show ?thesis by blast
    next
      case False
      then have w: "widen l = l"
        by (cases l) (auto split: elems.splits)
      from False la have "to_long n h a = Some (h, a)"
        by (cases l) (auto simp: n split: elems.splits)
      moreover from la w have "repr h a (to_long_spec v)" by (simp add: VLeaf spec_VLeaf)
      ultimately show ?thesis using evolves_refl by blast
    qed
  next
    case (VSeq vs)
    from less.prems(1) [unfolded VSeq repr_VSeq_iff] obtain xs
      where l: "lookup h a = Some (OList xs) \<or> lookup h a = Some (OTuple xs)"
        and r: "list_all2 (repr h) xs vs"
      by blast
    have "\<forall>u \<in> set vs. size u < size v"
      using child_seq VSeq by blast
    from elems_run [of "size v" m, OF IH r this]
    obtain h1 ys where run1: "to_long_elems m h xs = Some (h1, ys)"
      and rys: "list_all2 (repr h1) ys (map to_long_spec vs)" and ev1: "evolves h h1"
      by blast
    from l run1 have run: "to_long n h a = Some (h1 @ [OList ys], length h1)"
      by (auto simp: n alloc_def)
    from rys have "list_all2 (repr (h1 @ [OList ys])) ys (map to_long_spec vs)"
      by (rule list.rel_mono_strong) (rule repr_append)
    then have "repr (h1 @ [OList ys]) (length h1) (to_long_spec v)"
      unfolding VSeq spec_VSeq repr_VSeq_iff using lookup_alloc by blast
    moreover from ev1 evolves_append have "evolves h (h1 @ [OList ys])"
      by (rule evolves_trans)
    ultimately show ?thesis using run by blast
  next
    case (VDict kvv)
    from less.prems(1) [unfolded VDict repr_VDict_iff] obtain kvs
      where l: "lookup h a = Some (ODict kvs)"
        and dk: "distinct (map fst kvs)" and keys: "map fst kvs = map fst kvv"
      by blast
    have sizes: "\<forall>(k, u) \<in> set kvv. size u < size v"
    proof (clarify)
      fix k u assume "(k, u) \<in> set kvv"
      then have "u \<in> set (map snd kvv)" by force
      from child_dict [OF this] VDict show "size u < size v" by simp
    qed
    have d: "distinct (map fst kvs)" by (rule dk)
    have sub: "set (map fst kvs) \<subseteq> fst ` set kvv" using keys by auto
    have dn: "\<forall>(k, u) \<in> set kvv. k \<notin> set (map fst kvs) \<longrightarrow> to_long_spec u = u"
      using keys by force
    from items_run [of "size v" m, OF IH _ d sub sizes dn] less.prems(1) VDict
    obtain h' where run1: "to_long_items m h a (map fst kvs) = Some h'"
      and rf: "repr h' a (to_long_spec v)" and ev: "evolves h h'"
      by blast
    from l run1 have "to_long n h a = Some (h', a)" by (simp add: n)
    with rf ev show ?thesis by blast
  qed
qed

lemma keeps_refl: "keeps h h"
  by (simp add: keeps_def)

lemma keeps_trans: "keeps h1 h2 \<Longrightarrow> keeps h2 h3 \<Longrightarrow> keeps h1 h3"
  unfolding keeps_def by (meson order_trans)

lemma keeps_append: "keeps h (h @ xs)"
  by (simp add: keeps_def lookup_append)

lemma keeps_slot: "lookup h d = Some (ODict kvs) \<Longrightarrow> keeps h (h[d := ODict kvs'])"
  by (auto simp: keeps_def lookup_update)

lemma items_keeps:
  assumes T: "\<And>h a h' r. to_long n h a = Some (h', r) \<Longrightarrow> keeps h h'"
  shows "to_long_items n h d ks = Some h' \<Longrightarrow> keeps h h'"
proof (induction ks arbitrary: h)
  case Nil
  then show ?case by (simp add: keeps_refl)
next
  case (Cons key ks)
  from Cons.prems obtain kvs x h1 y kvs1 where "lookup h d = Some (ODict kvs)"
    and "map_of kvs key = Some x" and run1: "to_long n h x = Some (h1, y)"
    and ld1: "lookup h1 d = Some (ODict kvs1)"
    and rest: "to_long_items n (h1[d := ODict (AList.update key y kvs1)]) d ks = Some h'"
    by (auto split: option.splits pyobj.splits)
  from T [OF run1] keeps_slot [OF ld1] Cons.IH [OF rest] show ?case
    by (blast intro: keeps_trans)
qed

lemma elems_keeps:
  assumes T: "\<And>h a h' r. to_long n h a = Some (h', r) \<Longrightarrow> keeps h h'"
  shows "to_long_elems n h xs = Some (h', ys) \<Longrightarrow> keeps h h'"
proof (induction xs arbitrary: h ys)
  case Nil
  then show ?case by (simp add: keeps_refl)
next
  case (Cons x xs)
  from Cons.prems obtain h1 y ys1 where run1: "to_long n h x = Some (h1, y)"
    and rest: "to_long_elems n h1 xs = Some (h', ys1)"
    by (auto split: option.splits)
  from T [OF run1] Cons.IH [OF rest] show ?case by (rule keeps_trans)
qed

lemma to_long_keeps: "to_long n h a = Some (h', r) \<Longrightarrow> keeps h h'"
proof (induction n arbitrary: h a h' r)
  case 0
  then show ?case by simp
next
  case (Suc n)
  have T: "keeps h h'" if "to_long n h a = Some (h', r)" for h a h' r
    using that by (rule Suc.IH)
  from Suc.prems obtain x where la: "lookup h a = Some x"
    by (cases "lookup h a") auto
  show ?case
  proof (cases x)
    case (ODict kvs)
    with Suc.prems la have "to_long_items n h a (map fst kvs) = Some h'"
      by (auto split: option.splits)
    with items_keeps [of n h a "map fst kvs" h'] T show ?thesis by blast
  next
    case (OList xs)
    with Suc.prems la obtain h1 ys where run: "to_long_elems n h xs = Some (h1, ys)"
      and h': "h' = h1 @ [OList ys]"
      by (auto simp: alloc_def split: option.splits)
    from elems_keeps [of n h xs h1 ys] T run have "keeps h h1" by blast
    with keeps_append h' show ?thesis
      by (blast intro: keeps_trans)
  next
    case (OTuple xs)
    with Suc.prems la obtain h1 ys where run: "to_long_elems n h xs = Some (h1, ys)"
      and h': "h' = h1 @ [OList ys]"
      by (auto simp: alloc_def split: option.splits)
    from elems_keeps [of n h xs h1 ys] T run have "keeps h h1" by blast
    with keeps_append h' show ?thesis
      by (blast intro: keeps_trans)
  next
    case (OLeaf l)
    with Suc.prems la have "h' = h \<or> (\<exists>x. h' = h @ [x])"
      by (cases l) (auto simp: alloc_def split: elems.splits)
    with keeps_refl keeps_append show ?thesis by auto
  qed
qed

lemma to_long_dict_same_object:
  "lookup h a = Some (ODict kvs) \<Longrightarrow> to_long n h a = Some (h', r) \<Longrightarrow> r = a"
  by (cases n) (auto split: option.splits)

lemma to_long_seq_new_object:
  assumes l: "lookup h a = Some (OList xs) \<or> lookup h a = Some (OTuple xs)"
      and run: "to_long n h a = Some (h', r)"
  shows "lookup h r = None \<and> lookup h' a = lookup h a \<and> (\<exists>ys. lookup h' r = Some (OList ys))"
proof -
  from run obtain m where n: "n = Suc m" by (cases n) auto
  from l run n obtain h1 ys where elems: "to_long_elems m h xs = Some (h1, ys)"
    and h': "h' = h1 @ [OList ys]" and r: "r = length h1"
    by (auto simp: alloc_def split: option.splits)
  from elems_keeps [of m h xs h1 ys] to_long_keeps elems have st: "keeps h h1" by blast
  then have "length h \<le> r" by (simp add: keeps_def r)
  then have fresh: "lookup h r = None" by (simp add: lookup_def)
  from st l have "lookup h1 a = lookup h a" by (auto simp: keeps_def)
  with l h' have same: "lookup h' a = lookup h a" by (auto simp: lookup_append)
  from h' r have "lookup h' r = Some (OList ys)" by (simp add: lookup_alloc)
  with fresh same show ?thesis by blast
qed

lemma widen_int16:
  "t_elems t = I16 ws \<Longrightarrow>
   widen (Tensor t) = Tensor (t\<lparr>t_elems := I64 (map scast ws)\<rparr>) \<and>
   map sint (map scast ws :: 64 word list) = map sint ws"
  by (simp add: sint_up_scast is_up comp_def)

lemma widen_other: "\<not> (\<exists>t ws. l = Tensor t \<and> t_elems t = I16 ws) \<Longrightarrow> widen l = l"
  by (cases l) (auto split: elems.splits)

text \<open>
  Claim C9. For every nested container of mappings, sequences and leaves, \<^verbatim>\<open>to_long\<close>
  returns (given fuel above the size of the container) the container in which exactly the
  leaves that are 16-bit integer tensors are 64-bit integer tensors of the same values,
  every other leaf being unchanged and the container structure preserved. For a mapping
  the returned object is the given one, mutated in place; for a list or tuple it is a
  new list, at an address that did not exist before, and the given sequence object is
  unchanged.
\<close>

theorem to_long_widens_int16_leaves:
  assumes r: "repr h obj v" and fuel: "size v < fuel"
  shows "\<exists>h' r. to_long fuel h obj = Some (h', r) \<and>
           repr h' r (to_long_spec v) \<and>
           (\<forall>kvs. lookup h obj = Some (ODict kvs) \<longrightarrow> r = obj) \<and>
           (\<forall>xs. lookup h obj = Some (OList xs) \<or> lookup h obj = Some (OTuple xs) \<longrightarrow>
              lookup h r = None \<and> lookup h' obj = lookup h obj \<and>
              (\<exists>ys. lookup h' r = Some (OList ys))) \<and>
           (\<forall>t ws. t_elems t = I16 ws \<longrightarrow>
              widen (Tensor t) = Tensor (t\<lparr>t_elems := I64 (map scast ws)\<rparr>) \<and>
              map sint (map scast ws :: 64 word list) = map sint ws) \<and>
           (\<forall>l. \<not> (\<exists>t ws. l = Tensor t \<and> t_elems t = I16 ws) \<longrightarrow> widen l = l)"
proof -
  from to_long_refines [OF r fuel] obtain h' r where run: "to_long fuel h obj = Some (h', r)"
    and res: "repr h' r (to_long_spec v)"
    by blast
  from run have d: "\<forall>kvs. lookup h obj = Some (ODict kvs) \<longrightarrow> r = obj"
    using to_long_dict_same_object by blast
  from run have s: "\<forall>xs. lookup h obj = Some (OList xs) \<or> lookup h obj = Some (OTuple xs) \<longrightarrow>
              lookup h r = None \<and> lookup h' obj = lookup h obj \<and>
              (\<exists>ys. lookup h' r = Some (OList ys))"
    using to_long_seq_new_object by blast
  from run res d s widen_int16 widen_other show ?thesis by blast
qed

theorem to_long_widens_int16_leaves_witness:
  "repr example_heap 0 example_value \<and> size example_value < 20 \<and>
   (\<exists>h' r. to_long 20 example_heap 0 = Some (h', r) \<and> r = 0 \<and>
      repr h' r
        (VDict [(''a'', VLeaf (Tensor \<lparr>t_size = [2], t_elems = I64 [1, - 1]\<rparr>)),
                (''b'', VSeq [VLeaf (Tensor \<lparr>t_size = [2], t_elems = I64 [1, - 1]\<rparr>),
                            VLeaf (Other ''name'')])]))"
proof -
  have r: "repr example_heap 0 example_value"
    by (simp add: example_heap_def example_value_def lookup_def)
  have fuel: "size example_value < 20"
    by (simp add: example_value_def)
  have d: "lookup example_heap 0 = Some (ODict [(''a'', 1), (''b'', 2)])"
    by (simp add: example_heap_def lookup_def)
  have spec: "to_long_spec example_value
      = VDict [(''a'', VLeaf (Tensor \<lparr>t_size = [2], t_elems = I64 [1, - 1]\<rparr>)),
               (''b'', VSeq [VLeaf (Tensor \<lparr>t_size = [2], t_elems = I64 [1, - 1]\<rparr>),
                           VLeaf (Other ''name'')])]"
    by (simp add: to_long_spec_def example_value_def)
  from to_long_widens_int16_leaves [OF r fuel]
  obtain h' a where run: "to_long 20 example_heap 0 = Some (h', a)"
    and res: "repr h' a (to_long_spec example_value)"
    and same: "\<forall>kvs. lookup example_heap 0 = Some (ODict kvs) \<longrightarrow> a = 0"
    by blast
  from same d have "a = 0" by blast
  with run res spec r fuel show ?thesis by auto
qed

subsection \<open>Rotation of points\<close>















end
